theory Spec2Isabelle
  imports Main "HOL-Library.AList" "HOL-Library.Sublist"
begin

section \<open>Python values, text and errors\<close>

text \<open>
  The module \<^verbatim>\<open>ansible_runner/utils/__init__.py\<close> is embedded function by function.
  Python \<^verbatim>\<open>str\<close> values are HOL strings, one \<^typ>\<open>char\<close> per code point (code points
  below 256). Dictionaries are association lists in insertion order, read with
  \<^const>\<open>map_of\<close> and written with \<^const>\<open>AList.update\<close>. Exceptions are values of
  \<open>error\<close>; all subclasses of \<^verbatim>\<open>ValueError\<close> (\<^verbatim>\<open>binascii.Error\<close>,
  \<^verbatim>\<open>UnicodeDecodeError\<close>, \<^verbatim>\<open>json.JSONDecodeError\<close>) are the one value \<open>ValueError\<close>, and
  \<open>OSError\<close> stands for the operating system errors that have no class of their own
  (\<^verbatim>\<open>ENAMETOOLONG\<close>, \<^verbatim>\<open>EINVAL\<close>, \<^verbatim>\<open>EBUSY\<close>).
\<close>

datatype error =
    FileNotFoundError | NotADirectoryError | IsADirectoryError | FileExistsError | OSError
  | ValueError | TypeError | AttributeError | IndexError | RecursionError | OverflowError
  | BlockedOnPipe

datatype pyfloat = FFinite int int | FInf bool | FNaN

datatype pyval =
    PNone | PBool bool | PInt int | PFloat pyfloat | PStr string
  | PList "pyval list" | PDict "(string \<times> pyval) list"

type_synonym dict = "(string \<times> pyval) list"

text \<open>Python truthiness (\<^verbatim>\<open>bool(v)\<close>), as \<^verbatim>\<open>if v\<close>, \<^verbatim>\<open>v or d\<close> and \<^verbatim>\<open>not v\<close> use it.\<close>

fun truthy :: "pyval \<Rightarrow> bool" where
  "truthy PNone = False"
| "truthy (PBool b) = b"
| "truthy (PInt i) = (i \<noteq> 0)"
| "truthy (PFloat f) = (case f of FFinite m e \<Rightarrow> m \<noteq> 0 | _ \<Rightarrow> True)"
| "truthy (PStr s) = (s \<noteq> [])"
| "truthy (PList l) = (l \<noteq> [])"
| "truthy (PDict d) = (d \<noteq> [])"

text \<open>\<^verbatim>\<open>d.get(k)\<close> and \<^verbatim>\<open>d.get(k, default)\<close> on a dictionary.\<close>

definition dict_get :: "dict \<Rightarrow> string \<Rightarrow> pyval" where
  "dict_get d k = (case map_of d k of None \<Rightarrow> PNone | Some v \<Rightarrow> v)"

definition dict_get_default :: "dict \<Rightarrow> string \<Rightarrow> pyval \<Rightarrow> pyval" where
  "dict_get_default d k dflt = (case map_of d k of None \<Rightarrow> dflt | Some v \<Rightarrow> v)"

definition has_key :: "dict \<Rightarrow> string \<Rightarrow> bool" where
  "has_key d k = (map_of d k \<noteq> None)"

text \<open>
  The library functions the module calls but does not define. For \<^verbatim>\<open>base64.b64decode\<close>
  and \<^verbatim>\<open>bytes.decode\<close> \<open>None\<close> is a raised \<^verbatim>\<open>ValueError\<close> (\<^verbatim>\<open>binascii.Error\<close>,
  \<^verbatim>\<open>UnicodeDecodeError\<close>). \<^verbatim>\<open>json.loads\<close> answers with the value or with the exception it
  raises: \<open>ValueError\<close> for text that is not JSON, and whatever else the parser raises
  (\<^verbatim>\<open>RecursionError\<close> on text nested too deep). \<open>utf8_encode\<close> is \<^verbatim>\<open>str.encode()\<close>. \<open>uuid4 n\<close> is the text of the \<open>n\<close>-th identifier \<^verbatim>\<open>uuid.uuid4()\<close>
  draws; \<open>sha1_hex s\<close> is the hex digest of the UTF-8 encoding of \<open>s\<close>; \<open>py_str\<close> is
  \<^verbatim>\<open>str(v)\<close> on values that are not already text.
\<close>

record pylib =
  b64decode :: "string \<Rightarrow> string option"
  utf8_decode :: "string \<Rightarrow> string option"
  utf8_encode :: "string \<Rightarrow> string"
  json_loads :: "string \<Rightarrow> error + pyval"
  json_dumps :: "pyval \<Rightarrow> string"
  uuid4 :: "nat \<Rightarrow> string"
  sha1_hex :: "string \<Rightarrow> string"
  py_str :: "pyval \<Rightarrow> string"

definition NL :: char where "NL = CHR 0x0A"
definition CR :: char where "CR = CHR 0x0D"
definition ESC :: char where "ESC = CHR 0x1B"

text \<open>
  The characters at which \<^verbatim>\<open>str.splitlines\<close> breaks a line: LF, VT, FF, CR, FS, GS, RS
  and NEL (the pair CR LF is one break).
\<close>

definition is_linebreak :: "char \<Rightarrow> bool" where
  "is_linebreak c = (c \<in> {CHR 0x0A, CHR 0x0B, CHR 0x0C, CHR 0x0D, CHR 0x1C, CHR 0x1D, CHR 0x1E, CHR 0x85})"

text \<open>\<^verbatim>\<open>s.splitlines(True)\<close>: the lines of \<open>s\<close>, each with its line end.\<close>

fun splitlines :: "string \<Rightarrow> string list" where
  "splitlines [] = []"
| "splitlines [c] = [[c]]"
| "splitlines (c # d # ds) =
     (if c = CR \<and> d = NL then [c, d] # splitlines ds
      else if is_linebreak c then [c] # splitlines (d # ds)
      else (case splitlines (d # ds) of [] \<Rightarrow> [[c]] | l # ls \<Rightarrow> (c # l) # ls))"

text \<open>\<^verbatim>\<open>s.rstrip('\n\r')\<close> and \<^verbatim>\<open>s.count('\n')\<close>.\<close>

definition rstrip_newlines :: "string \<Rightarrow> string" where
  "rstrip_newlines s = rev (dropWhile (\<lambda>c. c = NL \<or> c = CR) (rev s))"

definition count_newlines :: "string \<Rightarrow> int" where
  "count_newlines s = int (count_list s NL)"

section \<open>The filesystem\<close>

text \<open>
  One process on a POSIX system, no symbolic links, and no call that fails for lack of
  permission or space. A node is stored under its key, the list of names from the root
  to it; the root is a directory. \<open>cwd\<close> is the key of the working directory,
  \<open>name_max\<close> and \<open>path_max\<close> are the limits \<^verbatim>\<open>NAME_MAX\<close> and \<^verbatim>\<open>PATH_MAX\<close> of the system,
  \<open>mtime\<close> is the modification time of each node, \<open>tmpdir\<close> is what
  \<^verbatim>\<open>tempfile.gettempdir()\<close> returns and \<open>rand_names\<close> are the names \<^verbatim>\<open>tempfile\<close> draws.
  \<open>file_writes\<close> logs every completed write of a text file (the path as given, and the
  content) and \<open>threads\<close> the background tasks started, each with its arguments;
  \<open>open_fds\<close> are the file descriptors the process has open.
\<close>

datatype node = File string | Dir | Fifo

text \<open>
  What \<^verbatim>\<open>open_fifo_write\<close> may be given as data: text, bytes, another object with the
  buffer protocol (\<^verbatim>\<open>bytearray\<close>, \<^verbatim>\<open>memoryview\<close>) with the bytes it holds, or an object
  without it, named by a number.
\<close>

datatype pydata = DStr string | DBytes string | DBuffer string | DObject nat

type_synonym key = "string list"

record world =
  files :: "(key \<times> node) list"
  cwd :: key
  name_max :: nat
  path_max :: nat
  mtime :: "key \<Rightarrow> int"
  tmpdir :: string
  rand_names :: "string list"
  file_writes :: "(string \<times> string) list"
  threads :: "(string \<times> pydata) list"
  pipe_writes :: "(string \<times> string) list"
  open_fds :: "int list"

subsection \<open>Paths as text: \<^verbatim>\<open>posixpath\<close>\<close>

definition isabs :: "string \<Rightarrow> bool" where
  "isabs p = (case p of [] \<Rightarrow> False | c # _ \<Rightarrow> c = CHR ''/'')"

text \<open>\<^verbatim>\<open>os.path.join(a, b)\<close>.\<close>

definition path_join :: "string \<Rightarrow> string \<Rightarrow> string" where
  "path_join a b =
     (if isabs b then b
      else if a = [] \<or> last a = CHR ''/'' then a @ b
      else a @ ''/'' @ b)"

text \<open>
  \<^verbatim>\<open>os.path.split\<close>: the head runs to the last slash, and loses its trailing slashes
  unless it is made of slashes only.
\<close>

definition rstrip_slash :: "string \<Rightarrow> string" where
  "rstrip_slash s = rev (dropWhile (\<lambda>c. c = CHR ''/'') (rev s))"

definition path_split :: "string \<Rightarrow> string \<times> string" where
  "path_split p =
     (let tail = rev (takeWhile (\<lambda>c. c \<noteq> CHR ''/'') (rev p));
          head = take (length p - length tail) p
      in (if head \<noteq> [] \<and> rstrip_slash head \<noteq> [] then rstrip_slash head else head, tail))"

subsection \<open>Path resolution\<close>

text \<open>
  The pieces of a path between its slashes, and its components: the pieces that are not
  empty. A path that ends in a slash names a directory.
\<close>

primrec pieces :: "string \<Rightarrow> string list" where
  "pieces [] = [[]]"
| "pieces (c # cs) =
     (if c = CHR ''/'' then [] # pieces cs
      else (case pieces cs of [] \<Rightarrow> [[c]] | p # ps \<Rightarrow> (c # p) # ps))"

definition components :: "string \<Rightarrow> string list" where
  "components p = filter (\<lambda>c. c \<noteq> []) (pieces p)"

definition slashed :: "string \<Rightarrow> bool" where
  "slashed p = (p \<noteq> [] \<and> last p = CHR ''/'')"

definition node_at :: "world \<Rightarrow> key \<Rightarrow> node option" where
  "node_at w k = (if k = [] then Some Dir else map_of (files w) k)"

text \<open>
  The walk of the kernel along the components, from the directory \<open>cur\<close>: each
  component is looked up in a directory (\<^verbatim>\<open>ENOENT\<close> when that is missing, \<^verbatim>\<open>ENOTDIR\<close> when
  it is something else, \<^verbatim>\<open>ENAMETOOLONG\<close> when the component is too long); \<^verbatim>\<open>.\<close> stays and
  \<^verbatim>\<open>..\<close> goes up. The result is the key the path names, whether or not a node is there.
\<close>

definition step :: "key \<Rightarrow> string \<Rightarrow> key" where
  "step cur c = (if c = ''.'' then cur else if c = ''..'' then butlast cur else cur @ [c])"

fun walk :: "world \<Rightarrow> key \<Rightarrow> string list \<Rightarrow> error + key" where
  "walk w cur [] = Inr cur"
| "walk w cur (c # cs) =
     (case node_at w cur of
        None \<Rightarrow> Inl FileNotFoundError
      | Some Dir \<Rightarrow> if name_max w < length c then Inl OSError else walk w (step cur c) cs
      | Some _ \<Rightarrow> Inl NotADirectoryError)"

text \<open>
  A path with a NUL character is refused by Python (\<^verbatim>\<open>ValueError\<close>), the empty path and a
  path of \<^verbatim>\<open>PATH_MAX\<close> characters or more by the kernel.
\<close>

definition resolve :: "world \<Rightarrow> string \<Rightarrow> error + key" where
  "resolve w p =
     (if CHR 0x00 \<in> set p then Inl ValueError
      else if p = [] then Inl FileNotFoundError
      else if path_max w \<le> length p then Inl OSError
      else walk w (if isabs p then [] else cwd w) (components p))"

text \<open>The key a path names, when its resolution succeeds.\<close>

definition key_of :: "world \<Rightarrow> string \<Rightarrow> key" where
  "key_of w p = foldl step (if isabs p then [] else cwd w) (components p)"

text \<open>
  \<^verbatim>\<open>os.stat(p)\<close>, as far as the kind of the node goes; \<^verbatim>\<open>os.path.exists(p)\<close> is whether it
  succeeds.
\<close>

definition stat_path :: "world \<Rightarrow> string \<Rightarrow> error + (key \<times> node)" where
  "stat_path w p =
     (case resolve w p of
        Inl e \<Rightarrow> Inl e
      | Inr k \<Rightarrow>
         (case node_at w k of
            None \<Rightarrow> Inl FileNotFoundError
          | Some Dir \<Rightarrow> Inr (k, Dir)
          | Some n \<Rightarrow> if slashed p then Inl NotADirectoryError else Inr (k, n)))"

definition path_exists :: "world \<Rightarrow> string \<Rightarrow> bool" where
  "path_exists w p = (case stat_path w p of Inl e \<Rightarrow> False | Inr kn \<Rightarrow> True)"

text \<open>\<^verbatim>\<open>os.path.getmtime(p)\<close>.\<close>

definition getmtime :: "world \<Rightarrow> string \<Rightarrow> error + int" where
  "getmtime w p = (case stat_path w p of Inl e \<Rightarrow> Inl e | Inr (k, n) \<Rightarrow> Inr (mtime w k))"

text \<open>\<^verbatim>\<open>os.listdir(p)\<close>: the names of the entries of the directory \<open>p\<close>.\<close>

definition children :: "world \<Rightarrow> key \<Rightarrow> string list" where
  "children w k =
     map last (filter (\<lambda>k'. k' \<noteq> [] \<and> butlast k' = k) (remdups (map fst (files w))))"

definition listdir :: "world \<Rightarrow> string \<Rightarrow> error + string list" where
  "listdir w p =
     (case stat_path w p of
        Inl e \<Rightarrow> Inl e
      | Inr (k, Dir) \<Rightarrow> Inr (children w k)
      | Inr (k, _) \<Rightarrow> Inl NotADirectoryError)"

text \<open>
  \<^verbatim>\<open>shutil.rmtree(p)\<close>: the exception it raises, if any, and the world it leaves. It
  removes the directory \<open>p\<close> and everything below it; what is not a directory is refused
  with \<^verbatim>\<open>NotADirectoryError\<close>; for the root, and for a path that ends in \<^verbatim>\<open>.\<close> or \<^verbatim>\<open>..\<close>, the
  content goes and the final \<^verbatim>\<open>os.rmdir\<close> raises.
\<close>

definition rmtree :: "world \<Rightarrow> string \<Rightarrow> error option \<times> world" where
  "rmtree w p =
     (case stat_path w p of
        Inl e \<Rightarrow> (Some e, w)
      | Inr (k, Dir) \<Rightarrow>
          if k = [] \<or> (components p \<noteq> [] \<and> last (components p) \<in> {''.'', ''..''})
          then (Some OSError, w\<lparr>files := filter (\<lambda>(k', n). \<not> strict_prefix k k') (files w)\<rparr>)
          else (None, w\<lparr>files := filter (\<lambda>(k', n). \<not> prefix k k') (files w)\<rparr>)
      | Inr (k, _) \<Rightarrow> (Some NotADirectoryError, w))"

text \<open>
  Reading a file: \<^verbatim>\<open>codecs.open(p, 'r', encoding='utf-8')\<close> reads the text as stored;
  the builtin \<^verbatim>\<open>open(p)\<close> reads in text mode with universal newlines, where CR LF and a
  lone CR both arrive as LF. Opening a pipe that has no writer does not return.
\<close>

definition read_raw :: "world \<Rightarrow> string \<Rightarrow> error + string" where
  "read_raw w p =
     (case stat_path w p of
        Inl e \<Rightarrow> Inl e
      | Inr (k, Dir) \<Rightarrow> Inl IsADirectoryError
      | Inr (k, Fifo) \<Rightarrow> Inl BlockedOnPipe
      | Inr (k, File c) \<Rightarrow> Inr c)"

fun universal_newlines :: "string \<Rightarrow> string" where
  "universal_newlines [] = []"
| "universal_newlines [c] = [if c = CR then NL else c]"
| "universal_newlines (c # d # ds) =
     (if c = CR \<and> d = NL then NL # universal_newlines ds
      else if c = CR then NL # universal_newlines (d # ds)
      else c # universal_newlines (d # ds))"

definition read_text :: "world \<Rightarrow> string \<Rightarrow> error + string" where
  "read_text w p = (case read_raw w p of Inl e \<Rightarrow> Inl e | Inr c \<Rightarrow> Inr (universal_newlines c))"

section \<open>Event Directory Poller: \<^verbatim>\<open>collect_new_events\<close>\<close>

definition is_ascii_digit :: "char \<Rightarrow> bool" where
  "is_ascii_digit c = (48 \<le> (of_char c :: nat) \<and> (of_char c :: nat) \<le> 57)"

text \<open>
  \<^verbatim>\<open>re.match("^[0-9]+-.+json$", name)\<close>: digits, a dash, then at least one character other
  than a newline, then \<^verbatim>\<open>json\<close> at the end of the name or just before a final newline.
\<close>

definition dot_plus_json :: "string \<Rightarrow> bool" where
  "dot_plus_json r = (5 \<le> length r \<and> NL \<notin> set r \<and> suffix ''json'' r)"

definition event_name_match :: "string \<Rightarrow> bool" where
  "event_name_match name =
     (let ds = takeWhile is_ascii_digit name; r = dropWhile is_ascii_digit name in
      ds \<noteq> [] \<and>
      (case r of
         [] \<Rightarrow> False
       | c # r' \<Rightarrow> c = CHR ''-'' \<and>
           (dot_plus_json r' \<or> (r' \<noteq> [] \<and> last r' = NL \<and> dot_plus_json (butlast r')))))"

text \<open>
  The sort key \<^verbatim>\<open>int(filenm.split("-", 1)[0])\<close>: the text before the first dash, read as
  a decimal number (the pattern above leaves only names where that text is ASCII digits).
\<close>

definition int_of_digits :: "string \<Rightarrow> int" where
  "int_of_digits s = foldl (\<lambda>n c. 10 * n + (of_char c - 48)) 0 s"

definition sequence_number :: "string \<Rightarrow> int" where
  "sequence_number filenm = int_of_digits (takeWhile (\<lambda>c. c \<noteq> CHR ''-'') filenm)"

definition dir_events_actual :: "string list \<Rightarrow> dict \<Rightarrow> string list" where
  "dir_events_actual dir_events old_events =
     sort_key sequence_number
       (filter (\<lambda>each_file. event_name_match each_file \<and>
                  \<not> sublist ''-partial'' each_file \<and> \<not> has_key old_events each_file)
          dir_events)"

text \<open>
  The generator, run to its end: the events it yields in order, \<^verbatim>\<open>old_events\<close> as it
  leaves it, and the exception it raised, if any. A \<^verbatim>\<open>ValueError\<close> of \<^verbatim>\<open>json.load\<close> ends
  the loop (\<^verbatim>\<open>break\<close>) before the assignment that would mark the file; any other
  exception of \<^verbatim>\<open>json.load\<close>, and any exception of \<^verbatim>\<open>codecs.open\<close>, leaves the generator.
\<close>

fun read_events :: "pylib \<Rightarrow> world \<Rightarrow> string \<Rightarrow> string list \<Rightarrow> dict \<Rightarrow> pyval list \<times> dict \<times> error option" where
  "read_events lib w event_path [] old_events = ([], old_events, None)"
| "read_events lib w event_path (event_file # rest) old_events =
     (case read_raw w (path_join event_path event_file) of
        Inl e \<Rightarrow> ([], old_events, Some e)
      | Inr c \<Rightarrow>
         (case json_loads lib c of
            Inl e \<Rightarrow> ([], old_events, if e = ValueError then None else Some e)
          | Inr event \<Rightarrow>
              (let (evs, old', r) =
                     read_events lib w event_path rest (AList.update event_file (PBool True) old_events)
               in (event # evs, old', r))))"

definition collect_new_events :: "pylib \<Rightarrow> world \<Rightarrow> string \<Rightarrow> dict \<Rightarrow> pyval list \<times> dict \<times> error option" where
  "collect_new_events lib w event_path old_events =
     (case listdir w event_path of
        Inl e \<Rightarrow> ([], old_events, Some e)
      | Inr dir_events \<Rightarrow>
          read_events lib w event_path (dir_events_actual dir_events old_events) old_events)"

text \<open>
  The event one file of the directory holds: its parsed content, when it can be read
  and parses.
\<close>

definition file_event :: "pylib \<Rightarrow> world \<Rightarrow> string \<Rightarrow> string \<Rightarrow> pyval option" where
  "file_event lib w event_path name =
     (case read_raw w (path_join event_path name) of
        Inl e \<Rightarrow> None
      | Inr c \<Rightarrow> (case json_loads lib c of Inl e \<Rightarrow> None | Inr event \<Rightarrow> Some event))"

section \<open>Event Stream Decoder: \<^verbatim>\<open>OutputEventFilter\<close>\<close>

subsection \<open>The event token pattern\<close>

text \<open>
  \<^verbatim>\<open>EVENT_DATA_RE = \x1b\[K((?:[A-Za-z0-9+/=]+\x1b\[\d+D)+)\x1b\[K\<close>. No character of a
  repeated class can start what follows the repetition (a base64 character is not ESC, a
  digit is not \<^verbatim>\<open>D\<close>, and after the last pair comes ESC, not a base64 character), so the
  backtracking search of \<^verbatim>\<open>re\<close> finds a match at a position exactly when the longest
  runs do; the matcher below takes the longest runs. \<^verbatim>\<open>\d\<close> is a decimal digit, which
  among the code points below 256 is one of \<^verbatim>\<open>0\<close> to \<^verbatim>\<open>9\<close>.
\<close>

definition marker :: string where
  "marker = [ESC, CHR ''['', CHR ''K'']"

definition is_b64_char :: "char \<Rightarrow> bool" where
  "is_b64_char c =
     (let n = (of_char c :: nat) in
      (65 \<le> n \<and> n \<le> 90) \<or> (97 \<le> n \<and> n \<le> 122) \<or> (48 \<le> n \<and> n \<le> 57) \<or>
      c = CHR ''+'' \<or> c = CHR ''/'' \<or> c = CHR ''='')"

text \<open>\<^verbatim>\<open>\x1b\[\d+D\<close> at the front of \<open>s\<close>: what follows it.\<close>

definition cursor_seq :: "string \<Rightarrow> string option" where
  "cursor_seq s =
     (case s of
        e # b # r \<Rightarrow>
          if e = ESC \<and> b = CHR ''['' \<and> takeWhile is_ascii_digit r \<noteq> []
          then (case dropWhile is_ascii_digit r of
                  d # r' \<Rightarrow> if d = CHR ''D'' then Some r' else None
                | [] \<Rightarrow> None)
          else None
      | _ \<Rightarrow> None)"

text \<open>\<^verbatim>\<open>[A-Za-z0-9+/=]+\x1b\[\d+D\<close> at the front of \<open>s\<close>: what follows it.\<close>

definition one_pair :: "string \<Rightarrow> string option" where
  "one_pair s =
     (if takeWhile is_b64_char s = [] then None else cursor_seq (dropWhile is_b64_char s))"

text \<open>One or more pairs at the front of \<open>s\<close>, as many as there are: what follows them.\<close>

function pairs :: "string \<Rightarrow> string option" where
  "pairs s =
     (case one_pair s of
        None \<Rightarrow> None
      | Some r \<Rightarrow> (case pairs r of None \<Rightarrow> Some r | Some r' \<Rightarrow> Some r'))"
  by pat_completeness auto
termination
proof (relation "measure length")
  show "wf (measure length)" by simp
next
  fix s r :: string
  assume a: "one_pair s = Some r"
  have c: "\<And>t u. cursor_seq t = Some u \<Longrightarrow> length u < length t"
  proof -
    fix t u :: string
    assume "cursor_seq t = Some u"
    then obtain e b q where t: "t = e # b # q" and d: "dropWhile is_ascii_digit q = CHR ''D'' # u"
      by (auto simp: cursor_seq_def split: list.splits if_splits)
    have "length (dropWhile is_ascii_digit q) \<le> length q" by (rule length_dropWhile_le)
    with d t show "length u < length t" by simp
  qed
  from a have "cursor_seq (dropWhile is_b64_char s) = Some r"
    by (simp add: one_pair_def split: if_splits)
  from c[OF this] have "length r < length (dropWhile is_b64_char s)" .
  also have "\<dots> \<le> length s" by (rule length_dropWhile_le)
  finally show "(r, s) \<in> measure length" by simp
qed

declare pairs.simps [simp del]

text \<open>
  The pattern at the front of \<open>s\<close>: group 1 (the pairs) and what follows the match.
\<close>

definition match_here :: "string \<Rightarrow> (string \<times> string) option" where
  "match_here s =
     (if prefix marker s
      then (case pairs (drop 3 s) of
              None \<Rightarrow> None
            | Some r \<Rightarrow>
                if prefix marker r
                then Some (take (length s - 3 - length r) (drop 3 s), drop 3 r)
                else None)
      else None)"

text \<open>
  \<^verbatim>\<open>EVENT_DATA_RE.search(value)\<close>, the leftmost match: \<^verbatim>\<open>value[:match.start()]\<close>,
  \<^verbatim>\<open>match.group(1)\<close> and \<^verbatim>\<open>value[match.end():]\<close>.
\<close>

fun search :: "string \<Rightarrow> (string \<times> string \<times> string) option" where
  "search [] = None"
| "search (c # cs) =
     (case match_here (c # cs) of
        Some (g, rest) \<Rightarrow> Some ([], g, rest)
      | None \<Rightarrow> (case search cs of None \<Rightarrow> None | Some (p, g, rest) \<Rightarrow> Some (c # p, g, rest)))"

text \<open>\<^verbatim>\<open>re.sub(r'\x1b\[\d+D', '', s)\<close>.\<close>

function strip_cursor :: "string \<Rightarrow> string" where
  "strip_cursor [] = []"
| "strip_cursor (c # cs) =
     (case cursor_seq (c # cs) of
        Some rest \<Rightarrow> strip_cursor rest
      | None \<Rightarrow> c # strip_cursor cs)"
  by pat_completeness auto
termination
proof (relation "measure length")
  show "wf (measure length)" by simp
next
  fix c :: char and cs rest :: string
  assume "cursor_seq (c # cs) = Some rest"
  then obtain b q where t: "cs = b # q" and d: "dropWhile is_ascii_digit q = CHR ''D'' # rest"
    by (auto simp: cursor_seq_def split: list.splits if_splits)
  have "length (dropWhile is_ascii_digit q) \<le> length q" by (rule length_dropWhile_le)
  with d t show "(rest, c # cs) \<in> measure length" by simp
next
  fix c :: char and cs :: string
  show "(cs, c # cs) \<in> measure length" by simp
qed

text \<open>
  The payload of a token: \<^verbatim>\<open>json.loads(base64.b64decode(base64_data).decode('utf-8'))\<close>
  inside \<^verbatim>\<open>try\<close>, with \<^verbatim>\<open>except ValueError: event_data = {}\<close>. An exception that is not a
  \<^verbatim>\<open>ValueError\<close> passes the handler.
\<close>

definition decode_payload :: "pylib \<Rightarrow> string \<Rightarrow> error + pyval" where
  "decode_payload lib g =
     (case b64decode lib (strip_cursor g) of
        None \<Rightarrow> Inl ValueError
      | Some bytes \<Rightarrow>
          (case utf8_decode lib bytes of
             None \<Rightarrow> Inl ValueError
           | Some txt \<Rightarrow> json_loads lib txt))"

definition decode_event_data :: "pylib \<Rightarrow> string \<Rightarrow> error + pyval" where
  "decode_event_data lib g =
     (case decode_payload lib g of
        Inl e \<Rightarrow> if e = ValueError then Inr (PDict []) else Inl e
      | Inr v \<Rightarrow> Inr v)"

subsection \<open>The decoder\<close>

text \<open>
  The fields of the object, and what it has done to the world: \<open>callback_events\<close> are the
  dictionaries \<^verbatim>\<open>event_callback\<close> received, each as it was at the call, in order;
  \<open>console\<close> and \<open>transcript\<close> are the texts written to \<^verbatim>\<open>sys.stdout\<close> and to the handle
  (\<open>None\<close> when the decoder has no handle); \<open>uuids_drawn\<close> counts the calls of
  \<^verbatim>\<open>uuid.uuid4()\<close>; \<open>chunks_emitted\<close> are the values of \<^verbatim>\<open>stdout_chunk\<close> the loop of
  \<^verbatim>\<open>_emit_event\<close> has gone through, in order.
\<close>

record decoder =
  counter :: int
  start_line :: int
  buffer :: string
  last_chunk :: string
  current_event_data :: "dict option"
  output_json :: bool
  suppress_ansible_output :: bool
  transcript :: "string list option"
  callback_events :: "dict list"
  console :: "string list"
  uuids_drawn :: nat
  chunks_emitted :: "string list"

definition OutputEventFilter_init :: "bool \<Rightarrow> bool \<Rightarrow> bool \<Rightarrow> decoder" where
  "OutputEventFilter_init with_handle suppress json_mode =
     \<lparr>counter = 0, start_line = 0, buffer = [], last_chunk = [], current_event_data = None,
      output_json = json_mode, suppress_ansible_output = suppress,
      transcript = (if with_handle then Some [] else None),
      callback_events = [], console = [], uuids_drawn = 0, chunks_emitted = []\<rparr>"

text \<open>The body of the loop over \<^verbatim>\<open>stdout_chunks\<close> in \<^verbatim>\<open>_emit_event\<close>.\<close>

definition emit_chunk :: "pylib \<Rightarrow> dict \<times> decoder \<Rightarrow> string \<Rightarrow> dict \<times> decoder" where
  "emit_chunk lib acc stdout_chunk =
     (let (event_data, st) = acc;
          (ed1, st1) =
            (if dict_get event_data ''event'' = PStr ''verbose''
             then (AList.update ''uuid'' (PStr (uuid4 lib (uuids_drawn st))) event_data,
                   st\<lparr>uuids_drawn := Suc (uuids_drawn st)\<rparr>)
             else (event_data, st));
          c = counter st1 + 1;
          n_lines = count_newlines stdout_chunk;
          ed2 = AList.update ''counter'' (PInt c) ed1;
          ed3 = AList.update ''stdout'' (PStr (rstrip_newlines stdout_chunk)) ed2;
          ed4 = AList.update ''start_line'' (PInt (start_line st1)) ed3;
          ed5 = AList.update ''end_line'' (PInt (start_line st1 + n_lines)) ed4
      in (ed5, st1\<lparr>counter := c, start_line := start_line st1 + n_lines,
                    callback_events := callback_events st1 @ [ed5],
                    chunks_emitted := chunks_emitted st1 @ [stdout_chunk]\<rparr>))"

text \<open>
  \<^verbatim>\<open>_emit_event(buffered_stdout, next_event_data)\<close>. A payload that is true and not a
  dictionary has no \<^verbatim>\<open>get\<close>: the call raises \<^verbatim>\<open>AttributeError\<close> after the loop, with the
  pending payload as it was.
\<close>

definition OutputEventFilter_emit_event ::
  "pylib \<Rightarrow> string \<Rightarrow> pyval \<Rightarrow> decoder \<Rightarrow> (error \<times> decoder) + (dict \<times> decoder)" where
  "OutputEventFilter_emit_event lib buffered_stdout next_event_data st =
     (let next_data = (if truthy next_event_data then next_event_data else PDict []);
          (event_data, stdout_chunks) =
            (case current_event_data st of
               Some cur \<Rightarrow>
                 if cur \<noteq> [] then (cur, [buffered_stdout])
                 else if buffered_stdout \<noteq> []
                 then ([(''event'', PStr ''verbose'')], splitlines buffered_stdout)
                 else ([], [])
             | None \<Rightarrow>
                 if buffered_stdout \<noteq> []
                 then ([(''event'', PStr ''verbose'')], splitlines buffered_stdout)
                 else ([], []));
          (ed, st1) = foldl (emit_chunk lib) (event_data, st) stdout_chunks
      in (case next_data of
            PDict nd \<Rightarrow>
              Inr (ed, st1\<lparr>current_event_data :=
                            (if truthy (dict_get nd ''uuid'') then Some nd else None)\<rparr>)
          | _ \<Rightarrow> Inl (AttributeError, st1)))"

text \<open>Writing the display text of an event, or a flushed line, to console and handle.\<close>

definition echo_event :: "string \<Rightarrow> decoder \<Rightarrow> decoder" where
  "echo_event stdout_actual st =
     (let st1 = (if \<not> suppress_ansible_output st
                 then st\<lparr>console := console st @ [stdout_actual, [NL]]\<rparr> else st)
      in st1\<lparr>transcript := map_option (\<lambda>h. h @ [stdout_actual @ [NL]]) (transcript st1)\<rparr>)"

definition echo_line :: "string \<Rightarrow> decoder \<Rightarrow> decoder" where
  "echo_line line st =
     (let st1 = (if \<not> suppress_ansible_output st
                 then st\<lparr>console := console st @ [line]\<rparr> else st)
      in st1\<lparr>transcript := map_option (\<lambda>h. h @ [line]) (transcript st1)\<rparr>)"

text \<open>
  The rest of one pass of the \<^verbatim>\<open>while should_search\<close> loop, after \<^verbatim>\<open>_emit_event\<close> has
  returned \<open>event_data\<close>: the text to show, the buffer cut to the remainder, the echo,
  and the remainder as the last chunk.
\<close>

definition show_event :: "pylib \<Rightarrow> dict \<Rightarrow> string \<Rightarrow> decoder \<Rightarrow> decoder" where
  "show_event lib event_data remainder st1 =
     (let stdout_actual =
            (if \<not> output_json st1
             then (if has_key event_data ''stdout''
                   then Some (dict_get event_data ''stdout'') else None)
             else Some (PStr (json_dumps lib (PDict event_data))));
          st2 = st1\<lparr>buffer := remainder\<rparr>;
          st3 = (case stdout_actual of
                   Some (PStr shown) \<Rightarrow>
                     if shown \<noteq> [] \<and> shown \<noteq> ''{}'' then echo_event shown st2 else st2
                 | _ \<Rightarrow> st2)
      in st3\<lparr>last_chunk := remainder\<rparr>)"

text \<open>
  The \<^verbatim>\<open>while should_search\<close> loop of \<^verbatim>\<open>write\<close>: it runs until the buffer holds no match.
\<close>

function search_loop :: "pylib \<Rightarrow> decoder \<Rightarrow> (error \<times> decoder) + decoder" where
  "search_loop lib st =
     (case search (buffer st) of
        None \<Rightarrow> Inr st
      | Some (head, g, remainder) \<Rightarrow>
          (case decode_event_data lib g of
             Inl e \<Rightarrow> Inl (e, st)
           | Inr next_event_data \<Rightarrow>
               (case OutputEventFilter_emit_event lib head next_event_data st of
                  Inl e \<Rightarrow> Inl e
                | Inr (event_data, st1) \<Rightarrow>
                    search_loop lib (show_event lib event_data remainder st1))))"
  by pat_completeness auto
termination
proof -
  have c: "\<And>t u. cursor_seq t = Some u \<Longrightarrow> length u < length t"
  proof -
    fix t u :: string
    assume "cursor_seq t = Some u"
    then obtain e b q where t: "t = e # b # q" and d: "dropWhile is_ascii_digit q = CHR ''D'' # u"
      by (auto simp: cursor_seq_def split: list.splits if_splits)
    have "length (dropWhile is_ascii_digit q) \<le> length q" by (rule length_dropWhile_le)
    with d t show "length u < length t" by simp
  qed
  have o: "\<And>t r. one_pair t = Some r \<Longrightarrow> length r < length t"
  proof -
    fix t r :: string
    assume "one_pair t = Some r"
    then have "cursor_seq (dropWhile is_b64_char t) = Some r"
      by (simp add: one_pair_def split: if_splits)
    from c[OF this] have "length r < length (dropWhile is_b64_char t)" .
    also have "\<dots> \<le> length t" by (rule length_dropWhile_le)
    finally show "length r < length t" .
  qed
  have p: "\<And>t u. pairs t = Some u \<Longrightarrow> length u \<le> length t"
  proof -
    fix t u :: string
    show "pairs t = Some u \<Longrightarrow> length u \<le> length t"
    proof (induction t arbitrary: u rule: pairs.induct)
      case (1 t)
      from "1.prems" obtain r where r: "one_pair t = Some r"
        by (subst (asm) pairs.simps) (simp split: option.splits)
      from o[OF r] have rt: "length r \<le> length t" by simp
      show ?case
      proof (cases "pairs r")
        case None
        with "1.prems" r have "u = r" by (subst (asm) pairs.simps) simp
        with rt show ?thesis by simp
      next
        case (Some r')
        with "1.prems" r have "u = r'" by (subst (asm) pairs.simps) simp
        with "1.IH"[OF r Some] rt show ?thesis by simp
      qed
    qed
  qed
  have m: "\<And>t g' u. match_here t = Some (g', u) \<Longrightarrow> length u < length t"
  proof -
    fix t g' u :: string
    assume "match_here t = Some (g', u)"
    then obtain r where pm: "prefix marker t" and pr: "pairs (drop 3 t) = Some r" and u: "u = drop 3 r"
      by (auto simp: match_here_def split: if_splits option.splits)
    from pm have "3 \<le> length t" by (auto simp: prefix_def marker_def)
    with p[OF pr] u show "length u < length t" by simp
  qed
  have sh: "\<And>t b g' u. search t = Some (b, g', u) \<Longrightarrow> length u < length t"
  proof -
    fix t b g' u :: string
    show "search t = Some (b, g', u) \<Longrightarrow> length u < length t"
    proof (induction t arbitrary: b)
      case Nil
      then show ?case by simp
    next
      case (Cons c cs)
      show ?case
      proof (cases "match_here (c # cs)")
        case (Some gr)
        with Cons.prems have "match_here (c # cs) = Some (g', u)"
          by (cases gr) simp
        from m[OF this] show ?thesis .
      next
        case None
        with Cons.prems obtain b' where "search cs = Some (b', g', u)"
          by (auto split: option.splits)
        from Cons.IH[OF this] show ?thesis by simp
      qed
    qed
  qed
  have b: "\<And>lib ed remainder st1. buffer (show_event lib ed remainder st1) = remainder"
    by (simp add: show_event_def echo_event_def Let_def split: option.splits pyval.splits)
  show ?thesis
    by (relation "measure (\<lambda>(lib, st). length (buffer st))") (auto simp: b dest: sh)
qed

declare search_loop.simps [simp del]

text \<open>
  The branch of \<^verbatim>\<open>write\<close> for verbose output outside of event data: one event per
  complete line, each echoed; a last line with no newline stays in the buffer.
\<close>

fun emit_lines :: "pylib \<Rightarrow> string list \<Rightarrow> decoder \<Rightarrow> (error \<times> decoder) + decoder" where
  "emit_lines lib [] st = Inr st"
| "emit_lines lib (line # rest) st =
     (case OutputEventFilter_emit_event lib line PNone st of
        Inl e \<Rightarrow> Inl e
      | Inr (event_data, st1) \<Rightarrow> emit_lines lib rest (echo_line line st1))"

definition flush_lines :: "pylib \<Rightarrow> decoder \<Rightarrow> (error \<times> decoder) + decoder" where
  "flush_lines lib st =
     (let lines = splitlines (buffer st) in
      if lines = [] then Inl (IndexError, st)
      else (let remainder = (if NL \<notin> set (last lines) then Some (last lines) else None);
                complete = (if NL \<notin> set (last lines) then butlast lines else lines)
            in (case emit_lines lib complete st of
                  Inl e \<Rightarrow> Inl e
                | Inr st1 \<Rightarrow>
                    Inr (st1\<lparr>buffer := (case remainder of Some r \<Rightarrow> r | None \<Rightarrow> [])\<rparr>))))"

text \<open>
  \<^verbatim>\<open>write(data)\<close>. \<^verbatim>\<open>should_search\<close> never changes inside the loop, so the loop ends by
  \<^verbatim>\<open>break\<close> alone and its \<^verbatim>\<open>else\<close> branch runs exactly when \<^verbatim>\<open>should_search\<close> is false.
  An exception leaves the object as it was when it was raised.
\<close>

definition OutputEventFilter_write :: "pylib \<Rightarrow> string \<Rightarrow> decoder \<Rightarrow> (error \<times> decoder) + decoder" where
  "OutputEventFilter_write lib data st =
     (let should_search = sublist marker (last_chunk st @ data);
          st1 = st\<lparr>buffer := buffer st @ data, last_chunk := data\<rparr>
      in if should_search then search_loop lib st1
         else if data \<noteq> [] \<and> NL \<in> set data \<and> current_event_data st1 = None
         then flush_lines lib st1
         else Inr st1)"

definition OutputEventFilter_close :: "pylib \<Rightarrow> decoder \<Rightarrow> (error \<times> decoder) + decoder" where
  "OutputEventFilter_close lib st =
     (case (if buffer st \<noteq> []
            then (case OutputEventFilter_emit_event lib (buffer st) PNone st of
                    Inl e \<Rightarrow> Inl e
                  | Inr (event_data, st1) \<Rightarrow> Inr (st1\<lparr>buffer := []\<rparr>))
            else Inr st) of
        Inl e \<Rightarrow> Inl e
      | Inr st2 \<Rightarrow>
          Inr (st2\<lparr>callback_events := callback_events st2 @ [[(''event'', PStr ''EOF'')]]\<rparr>))"

text \<open>
  A caller that writes the chunks in order and then closes; an exception ends the
  sequence where it is raised.
\<close>

fun write_all :: "pylib \<Rightarrow> string list \<Rightarrow> decoder \<Rightarrow> (error \<times> decoder) + decoder" where
  "write_all lib [] st = Inr st"
| "write_all lib (data # rest) st =
     (case OutputEventFilter_write lib data st of
        Inl e \<Rightarrow> Inl e
      | Inr st1 \<Rightarrow> write_all lib rest st1)"

definition feed :: "pylib \<Rightarrow> string list \<Rightarrow> decoder \<Rightarrow> (error \<times> decoder) + decoder" where
  "feed lib chunks st =
     (case write_all lib chunks st of
        Inl e \<Rightarrow> Inl e
      | Inr st1 \<Rightarrow> OutputEventFilter_close lib st1)"

text \<open>The decoder as the run left it, raised or not, and the events it delivered.\<close>

definition final_state :: "(error \<times> decoder) + decoder \<Rightarrow> decoder" where
  "final_state r = (case r of Inl (e, st) \<Rightarrow> st | Inr st \<Rightarrow> st)"

definition delivered :: "(error \<times> decoder) + decoder \<Rightarrow> dict list" where
  "delivered r = callback_events (final_state r)"

text \<open>The values under one key of the events that carry it.\<close>

definition field_values :: "string \<Rightarrow> dict list \<Rightarrow> pyval list" where
  "field_values k evs = List.map_filter (\<lambda>ev. map_of ev k) evs"

definition counted :: "dict list \<Rightarrow> dict list" where
  "counted evs = filter (\<lambda>ev. has_key ev ''counter'') evs"

subsection \<open>What the delivered events say about lines\<close>

text \<open>
  \<open>span_of chunk ev\<close>: the event \<open>ev\<close> reports the text \<open>chunk\<close>, with its trailing
  newlines stripped, over a line range as long as the number of newlines in \<open>chunk\<close>.
  \<open>line_chain a evs b\<close>: the ranges of \<open>evs\<close> start at \<open>a\<close>, each starts where the one
  before ends, and the last ends at \<open>b\<close>.
\<close>

definition span_of :: "string \<Rightarrow> dict \<Rightarrow> bool" where
  "span_of chunk ev =
     (case (map_of ev ''start_line'', map_of ev ''end_line'', map_of ev ''stdout'') of
        (Some (PInt s), Some (PInt e), Some (PStr txt)) \<Rightarrow>
          e - s = count_newlines chunk \<and> txt = rstrip_newlines chunk
      | _ \<Rightarrow> False)"

fun line_chain :: "int \<Rightarrow> dict list \<Rightarrow> int \<Rightarrow> bool" where
  "line_chain a [] b = (a = b)"
| "line_chain a (ev # evs) b =
     (case (map_of ev ''start_line'', map_of ev ''end_line'') of
        (Some (PInt s), Some (PInt e)) \<Rightarrow> s = a \<and> line_chain e evs b
      | _ \<Rightarrow> False)"

definition decoder_inv :: "decoder \<Rightarrow> bool" where
  "decoder_inv st =
     (0 \<le> counter st \<and>
      field_values ''counter'' (callback_events st) = map PInt [1..counter st] \<and>
      line_chain 0 (counted (callback_events st)) (start_line st) \<and>
      list_all2 span_of (chunks_emitted st) (counted (callback_events st)) \<and>
      start_line st = sum_list (map count_newlines (chunks_emitted st)))"

section \<open>Artifact Store\<close>

subsection \<open>Filesystem calls that change the world\<close>

text \<open>\<^verbatim>\<open>os.mkdir(name)\<close>.\<close>

definition mkdir :: "world \<Rightarrow> string \<Rightarrow> error + world" where
  "mkdir w name =
     (case resolve w name of
        Inl e \<Rightarrow> Inl e
      | Inr k \<Rightarrow>
         (case node_at w k of
            Some n \<Rightarrow> Inl FileExistsError
          | None \<Rightarrow> Inr (w\<lparr>files := AList.update k Dir (files w)\<rparr>)))"

text \<open>
  \<^verbatim>\<open>os.makedirs(name, mode)\<close>: the missing directories above \<open>name\<close> first, then \<open>name\<close>.
\<close>

function makedirs :: "world \<Rightarrow> string \<Rightarrow> error + world" where
  "makedirs w name =
     (let ht = (if snd (path_split name) = [] then path_split (fst (path_split name))
                else path_split name);
          above = (fst ht \<noteq> [] \<and> snd ht \<noteq> [] \<and> \<not> path_exists w (fst ht))
      in (case (if above
                then (case makedirs w (fst ht) of Inl e \<Rightarrow> if e = FileExistsError then Inr w else Inl e
                      | Inr w1 \<Rightarrow> Inr w1)
                else Inr w) of
            Inl e \<Rightarrow> Inl e
          | Inr w1 \<Rightarrow> if above \<and> snd ht = ''.'' then Inr w1 else mkdir w1 name))"
  by pat_completeness auto
termination
proof -
  have r: "\<And>s. length (rstrip_slash s) \<le> length s"
    by (simp add: rstrip_slash_def length_dropWhile_le[of _ "rev _", simplified])
  have f: "\<And>p. length (fst (path_split p)) \<le> length p - length (snd (path_split p))"
  proof -
    fix p :: string
    have "length (fst (path_split p)) \<le> length (take (length p - length (snd (path_split p))) p)"
      using r[of "take (length p - length (snd (path_split p))) p"]
      by (simp add: path_split_def Let_def)
    then show "length (fst (path_split p)) \<le> length p - length (snd (path_split p))" by simp
  qed
  have t: "\<And>p. length (snd (path_split p)) \<le> length p"
    by (simp add: path_split_def Let_def length_takeWhile_le[of _ "rev _", simplified])
  have s: "\<And>p. snd (path_split p) \<noteq> [] \<Longrightarrow> length (fst (path_split p)) < length p"
  proof -
    fix p :: string
    assume "snd (path_split p) \<noteq> []"
    then have "0 < length (snd (path_split p))" by simp
    with f[of p] t[of p] show "length (fst (path_split p)) < length p" by linarith
  qed
  have d: "\<And>p. snd (path_split (fst (path_split p))) \<noteq> [] \<Longrightarrow>
             length (fst (path_split (fst (path_split p)))) < length p"
  proof -
    fix p :: string
    assume "snd (path_split (fst (path_split p))) \<noteq> []"
    from s[OF this] f[of p] show "length (fst (path_split (fst (path_split p)))) < length p"
      by linarith
  qed
  show ?thesis
    by (relation "measure (\<lambda>(w, name). length name)") (auto simp: s d split: if_splits)
qed

declare makedirs.simps [simp del]

text \<open>
  \<^verbatim>\<open>os.path.abspath(p)\<close>: the path joined to the working directory and normalised as
  text (two leading slashes are kept, as POSIX allows).
\<close>

definition abs_text :: "key \<Rightarrow> string" where
  "abs_text k = (if k = [] then ''/'' else concat (map (\<lambda>c. CHR ''/'' # c) k))"

definition abspath :: "world \<Rightarrow> string \<Rightarrow> string" where
  "abspath w p =
     (let a = (if isabs p then p else path_join (abs_text (cwd w)) p);
          k = foldl step [] (components a)
      in if take 2 a = ''//'' \<and> take 3 a \<noteq> ''///'' then CHR ''/'' # abs_text k else abs_text k)"

text \<open>
  \<^verbatim>\<open>os.open(p, O_RDWR | O_CREAT | O_EXCL)\<close>, and with it \<^verbatim>\<open>tempfile.mkstemp(dir=path)\<close> and
  \<^verbatim>\<open>tempfile.mkdtemp()\<close>: the first drawn name that is free; \<^verbatim>\<open>FileExistsError\<close> when none
  is.
\<close>

definition open_excl :: "world \<Rightarrow> string \<Rightarrow> error + world" where
  "open_excl w p =
     (case resolve w p of
        Inl e \<Rightarrow> Inl e
      | Inr k \<Rightarrow>
         (case node_at w k of
            Some n \<Rightarrow> Inl FileExistsError
          | None \<Rightarrow> if slashed p then Inl IsADirectoryError
                    else Inr (w\<lparr>files := AList.update k (File []) (files w)\<rparr>)))"

fun mkstemp_try :: "world \<Rightarrow> string \<Rightarrow> string list \<Rightarrow> error + (string \<times> world)" where
  "mkstemp_try w dir [] = Inl FileExistsError"
| "mkstemp_try w dir (n # ns) =
     (let file = path_join (abspath w dir) (''tmp'' @ n) in
      case open_excl w file of
        Inl e \<Rightarrow> if e = FileExistsError then mkstemp_try w dir ns else Inl e
      | Inr w1 \<Rightarrow> Inr (file, w1\<lparr>rand_names := ns\<rparr>))"

definition mkstemp :: "world \<Rightarrow> string \<Rightarrow> error + (string \<times> world)" where
  "mkstemp w dir = mkstemp_try w dir (rand_names w)"

fun mkdtemp_try :: "world \<Rightarrow> string list \<Rightarrow> error + (string \<times> world)" where
  "mkdtemp_try w [] = Inl FileExistsError"
| "mkdtemp_try w (n # ns) =
     (let file = path_join (tmpdir w) (''tmp'' @ n) in
      case mkdir w file of
        Inl e \<Rightarrow> if e = FileExistsError then mkdtemp_try w ns else Inl e
      | Inr w1 \<Rightarrow> Inr (abspath w file, w1\<lparr>rand_names := ns\<rparr>))"

definition mkdtemp :: "world \<Rightarrow> error + (string \<times> world)" where
  "mkdtemp w = mkdtemp_try w (rand_names w)"

text \<open>
  \<^verbatim>\<open>with open(fn, 'w') as f: os.chmod(fn, ...); f.write(obj)\<close>: the file holds \<open>obj\<close>
  afterwards, and the write is logged. Opening a pipe that has no reader does not
  return.
\<close>

definition write_text :: "world \<Rightarrow> string \<Rightarrow> string \<Rightarrow> error + world" where
  "write_text w fn obj =
     (case resolve w fn of
        Inl e \<Rightarrow> Inl e
      | Inr k \<Rightarrow>
         (case node_at w k of
            Some Dir \<Rightarrow> Inl IsADirectoryError
          | Some Fifo \<Rightarrow> Inl (if slashed fn then NotADirectoryError else BlockedOnPipe)
          | Some (File c) \<Rightarrow>
              if slashed fn then Inl NotADirectoryError
              else Inr (w\<lparr>files := AList.update k (File obj) (files w),
                         file_writes := file_writes w @ [(fn, obj)]\<rparr>)
          | None \<Rightarrow>
              if slashed fn then Inl IsADirectoryError
              else Inr (w\<lparr>files := AList.update k (File obj) (files w),
                         file_writes := file_writes w @ [(fn, obj)]\<rparr>)))"

text \<open>\<^verbatim>\<open>os.open(p, os.O_RDWR | os.O_CREAT, ...)\<close> and \<^verbatim>\<open>os.remove(p)\<close>.\<close>

definition open_creat :: "world \<Rightarrow> string \<Rightarrow> error + world" where
  "open_creat w p =
     (case resolve w p of
        Inl e \<Rightarrow> Inl e
      | Inr k \<Rightarrow>
         (case node_at w k of
            Some Dir \<Rightarrow> Inl IsADirectoryError
          | Some n \<Rightarrow> if slashed p then Inl NotADirectoryError else Inr w
          | None \<Rightarrow> if slashed p then Inl IsADirectoryError
                    else Inr (w\<lparr>files := AList.update k (File []) (files w)\<rparr>)))"

definition remove :: "world \<Rightarrow> string \<Rightarrow> error + world" where
  "remove w p =
     (case resolve w p of
        Inl e \<Rightarrow> Inl e
      | Inr k \<Rightarrow>
         (case node_at w k of
            None \<Rightarrow> Inl FileNotFoundError
          | Some Dir \<Rightarrow> Inl IsADirectoryError
          | Some n \<Rightarrow> if slashed p then Inl NotADirectoryError
                      else Inr (w\<lparr>files := AList.delete k (files w)\<rparr>)))"

subsection \<open>\<^verbatim>\<open>cleanup_folder\<close> and \<^verbatim>\<open>cleanup_artifact_dir\<close>\<close>

text \<open>
  Both answer with the world they leave, also when they raise. \<^verbatim>\<open>cleanup_folder\<close>
  returns \<^verbatim>\<open>False\<close> for the two exceptions it catches.
\<close>

definition cleanup_folder :: "world \<Rightarrow> string \<Rightarrow> (error \<times> world) + (bool \<times> world)" where
  "cleanup_folder w folder =
     (case rmtree w folder of
        (None, w1) \<Rightarrow> Inr (True, w1)
      | (Some e, w1) \<Rightarrow>
          if e = FileNotFoundError \<or> e = NotADirectoryError then Inr (False, w1) else Inl (e, w1))"

fun rmtree_each :: "world \<Rightarrow> string list \<Rightarrow> error option \<times> world" where
  "rmtree_each w [] = (None, w)"
| "rmtree_each w (p # ps) =
     (case rmtree w p of (Some e, w1) \<Rightarrow> (Some e, w1) | (None, w1) \<Rightarrow> rmtree_each w1 ps)"

text \<open>
  \<^verbatim>\<open>sorted(..., key=os.path.getmtime)\<close> asks for the time of every path, in order, before
  it sorts: the first path whose time cannot be had raises.
\<close>

fun first_error :: "(error + int) list \<Rightarrow> error option" where
  "first_error [] = None"
| "first_error (Inl e # rs) = Some e"
| "first_error (Inr t # rs) = first_error rs"

definition mtime_of :: "world \<Rightarrow> string \<Rightarrow> int" where
  "mtime_of w p = (case getmtime w p of Inl e \<Rightarrow> 0 | Inr t \<Rightarrow> t)"

definition cleanup_artifact_dir :: "world \<Rightarrow> string \<Rightarrow> int \<Rightarrow> error option \<times> world" where
  "cleanup_artifact_dir w path num_keep =
     (if num_keep < 1 then (None, w)
      else (case listdir w path of
              Inl e \<Rightarrow> (Some e, w)
            | Inr names \<Rightarrow>
               (let joined = map (path_join path) names in
                case first_error (map (getmtime w) joined) of
                  Some e \<Rightarrow> (Some e, w)
                | None \<Rightarrow>
                   (let all_paths = sort_key (mtime_of w) joined;
                        total_remove = int (length all_paths) - num_keep
                    in rmtree_each w (take (nat total_remove) all_paths)))))"

subsection \<open>\<^verbatim>\<open>dump_artifact\<close>\<close>

definition lock_name :: string where
  "lock_name = ''.artifact_write_lock''"

text \<open>
  The guarded write: the lock file is opened (created if absent) and locked, the target
  is written, and the \<^verbatim>\<open>finally\<close> block unlocks and removes the lock file, also when the
  write raised.
\<close>

definition locked_write :: "world \<Rightarrow> string \<Rightarrow> string \<Rightarrow> string \<Rightarrow> error + world" where
  "locked_write w path fn obj =
     (let lock_fp = path_join path lock_name in
      case open_creat w lock_fp of
        Inl e \<Rightarrow> Inl e
      | Inr w1 \<Rightarrow>
         (case write_text w1 fn obj of
            Inl e \<Rightarrow> (case remove w1 lock_fp of Inl e' \<Rightarrow> Inl e' | Inr w2 \<Rightarrow> Inl e)
          | Inr w2 \<Rightarrow> remove w2 lock_fp))"

definition dump_artifact ::
  "pylib \<Rightarrow> world \<Rightarrow> string \<Rightarrow> string \<Rightarrow> string option \<Rightarrow> error + (string \<times> world)" where
  "dump_artifact lib w obj path filename =
     (case (if \<not> path_exists w path then makedirs w path else Inr w) of
        Inl e \<Rightarrow> Inl e
      | Inr w1 \<Rightarrow>
         (case (case filename of
                  None \<Rightarrow> mkstemp w1 path
                | Some f \<Rightarrow> Inr (path_join path f, w1)) of
            Inl e \<Rightarrow> Inl e
          | Inr (fn, w2) \<Rightarrow>
             (case (if path_exists w2 fn
                    then (case read_text w2 fn of
                            Inl e \<Rightarrow> Inl e
                          | Inr contents \<Rightarrow> Inr (Some (sha1_hex lib contents)))
                    else Inr None) of
                Inl e \<Rightarrow> Inl e
              | Inr c_sha1 \<Rightarrow>
                 if \<not> path_exists w2 fn \<or> Some (sha1_hex lib obj) \<noteq> c_sha1
                 then (case locked_write w2 path fn obj of
                         Inl e \<Rightarrow> Inl e
                       | Inr w3 \<Rightarrow> Inr (fn, w3))
                 else Inr (fn, w2))))"

section \<open>Side-Channel Writer: \<^verbatim>\<open>open_fifo_write\<close>\<close>

text \<open>\<^verbatim>\<open>os.mkfifo(path, mode)\<close>.\<close>

definition mkfifo :: "world \<Rightarrow> string \<Rightarrow> error + world" where
  "mkfifo w p =
     (case resolve w p of
        Inl e \<Rightarrow> Inl e
      | Inr k \<Rightarrow>
         (case node_at w k of
            Some n \<Rightarrow> Inl FileExistsError
          | None \<Rightarrow> if slashed p then Inl FileNotFoundError
                    else Inr (w\<lparr>files := AList.update k Fifo (files w)\<rparr>)))"

text \<open>
  The function makes the pipe, turns text into bytes and starts the thread; it checks
  nothing else about \<open>data\<close>.
\<close>

definition open_fifo_write :: "pylib \<Rightarrow> world \<Rightarrow> string \<Rightarrow> pydata \<Rightarrow> error + world" where
  "open_fifo_write lib w path data =
     (case mkfifo w path of
        Inl e \<Rightarrow> Inl e
      | Inr w1 \<Rightarrow>
         (let data1 = (case data of DStr s \<Rightarrow> DBytes (utf8_encode lib s) | _ \<Rightarrow> data)
          in Inr (w1\<lparr>threads := threads w1 @ [(path, data1)]\<rparr>)))"

text \<open>
  The body of the thread, \<^verbatim>\<open>with open(path, 'wb') as fh: fh.write(data)\<close>, run in a world
  \<open>w\<close> where a reader has opened the pipe: the binary file takes the bytes of any object
  with the buffer protocol and raises \<^verbatim>\<open>TypeError\<close> for any other; \<open>pipe_writes\<close> logs what
  went into a pipe.
\<close>

definition bytes_of :: "pydata \<Rightarrow> string option" where
  "bytes_of data = (case data of DBytes b \<Rightarrow> Some b | DBuffer b \<Rightarrow> Some b | _ \<Rightarrow> None)"

definition worker :: "world \<Rightarrow> string \<Rightarrow> pydata \<Rightarrow> error + world" where
  "worker w path data =
     (case resolve w path of
        Inl e \<Rightarrow> Inl e
      | Inr k \<Rightarrow>
         (case node_at w k of
            Some Dir \<Rightarrow> Inl IsADirectoryError
          | Some Fifo \<Rightarrow>
              if slashed path then Inl NotADirectoryError
              else (case bytes_of data of
                      None \<Rightarrow> Inl TypeError
                    | Some b \<Rightarrow> Inr (w\<lparr>pipe_writes := pipe_writes w @ [(path, b)]\<rparr>))
          | Some (File c) \<Rightarrow>
              if slashed path then Inl NotADirectoryError
              else (case bytes_of data of
                      None \<Rightarrow> Inl TypeError
                    | Some b \<Rightarrow> Inr (w\<lparr>files := AList.update k (File b) (files w)\<rparr>))
          | None \<Rightarrow>
              if slashed path then Inl IsADirectoryError
              else (case bytes_of data of
                      None \<Rightarrow> Inl TypeError
                    | Some b \<Rightarrow> Inr (w\<lparr>files := AList.update k (File b) (files w)\<rparr>))))"

subsection \<open>\<^verbatim>\<open>dump_artifacts\<close>\<close>

text \<open>
  The parameter bag \<^verbatim>\<open>kwargs\<close> is a dictionary of the values JSON can hold, and the
  function returns the bag as it leaves it. \<^verbatim>\<open>isplaybook\<close> holds of the lists among these
  values and \<^verbatim>\<open>isinventory\<close> of the dictionaries and the texts.
\<close>

definition isplaybook :: "pyval \<Rightarrow> bool" where
  "isplaybook obj = (case obj of PList l \<Rightarrow> True | _ \<Rightarrow> False)"

definition isinventory :: "pyval \<Rightarrow> bool" where
  "isinventory obj = (case obj of PDict d \<Rightarrow> True | PStr s \<Rightarrow> True | _ \<Rightarrow> False)"

text \<open>
  \<^verbatim>\<open>os.path.exists(v)\<close> for a value that is true: a text is a path, an integer (or
  \<^verbatim>\<open>True\<close>) is a file descriptor, which \<^verbatim>\<open>os.stat\<close> refuses with \<^verbatim>\<open>OverflowError\<close> when it
  does not fit a C \<^verbatim>\<open>int\<close>, and anything else raises \<^verbatim>\<open>TypeError\<close>. \<^verbatim>\<open>os.path.join(v, name)\<close>
  takes a text only.
\<close>

definition fd_exists :: "world \<Rightarrow> int \<Rightarrow> error + bool" where
  "fd_exists w i =
     (if i < - 2147483648 \<or> 2147483647 < i then Inl OverflowError
      else Inr (i \<in> set (open_fds w)))"

definition exists_value :: "world \<Rightarrow> pyval \<Rightarrow> error + bool" where
  "exists_value w v =
     (case v of
        PStr d \<Rightarrow> Inr (path_exists w d)
      | PInt i \<Rightarrow> fd_exists w i
      | PBool b \<Rightarrow> fd_exists w (if b then 1 else 0)
      | _ \<Rightarrow> Inl TypeError)"

definition join_value :: "pyval \<Rightarrow> string \<Rightarrow> error + string" where
  "join_value v name = (case v of PStr d \<Rightarrow> Inr (path_join d name) | _ \<Rightarrow> Inl TypeError)"

text \<open>
  \<^verbatim>\<open>private_data_dir = kwargs.get('private_data_dir')\<close>, a fresh temporary directory
  stored under the key when that is false, and the check that the directory exists.
\<close>

definition ensure_private_data_dir :: "world \<Rightarrow> dict \<Rightarrow> error + (pyval \<times> dict \<times> world)" where
  "ensure_private_data_dir w kwargs =
     (case (if \<not> truthy (dict_get kwargs ''private_data_dir'')
            then (case mkdtemp w of
                    Inl e \<Rightarrow> Inl e
                  | Inr (d, w1) \<Rightarrow> Inr (PStr d, AList.update ''private_data_dir'' (PStr d) kwargs, w1))
            else Inr (dict_get kwargs ''private_data_dir'', kwargs, w)) of
        Inl e \<Rightarrow> Inl e
      | Inr (private_data_dir, kwargs1, w1) \<Rightarrow>
          (case exists_value w1 private_data_dir of
             Inl e \<Rightarrow> Inl e
           | Inr found \<Rightarrow>
               if \<not> found then Inl ValueError else Inr (private_data_dir, kwargs1, w1)))"

text \<open>
  The \<^verbatim>\<open>if 'role' in kwargs\<close> block. \<^verbatim>\<open>roles_path += ...\<close> joins texts, extends a list
  by the characters of the text, and raises for any other true value; the assignment
  into \<^verbatim>\<open>kwargs['envvars']\<close> needs a dictionary there.
\<close>

definition role_block :: "pyval \<Rightarrow> dict \<Rightarrow> error + dict" where
  "role_block private_data_dir kwargs =
     (if has_key kwargs ''role'' then
        (let role0 = [(''name'', dict_get kwargs ''role'')];
             kw1 = AList.delete ''role'' kwargs;
             role = (if has_key kw1 ''role_vars''
                     then AList.update ''vars'' (dict_get kw1 ''role_vars'') role0 else role0);
             kw2 = AList.delete ''role_vars'' kw1;
             play0 = [(''hosts'', dict_get_default kw2 ''hosts'' (PStr ''all'')),
                      (''roles'', PList [PDict role])];
             kw3 = AList.delete ''hosts'' kw2;
             play = (if truthy (dict_get_default kw3 ''role_skip_facts'' (PBool False))
                     then AList.update ''gather_facts'' (PBool False) play0 else play0);
             kw4 = AList.delete ''role_skip_facts'' kw3;
             kw5 = AList.update ''playbook'' (PList [PDict play]) kw4;
             kw6 = (if \<not> has_key kw5 ''envvars''
                    then AList.update ''envvars'' (PDict []) kw5 else kw5);
             given = dict_get_default kw6 ''roles_path'' PNone;
             kw7 = AList.delete ''roles_path'' kw6
         in (case join_value private_data_dir ''roles'' of
               Inl e \<Rightarrow> Inl e
             | Inr own \<Rightarrow>
                (case (if \<not> truthy given then Inr (PStr own)
                       else (case given of
                               PStr s \<Rightarrow> Inr (PStr (s @ '':'' @ own))
                             | PList l \<Rightarrow> Inr (PList (l @ map (\<lambda>c. PStr [c]) ('':'' @ own)))
                             | _ \<Rightarrow> Inl TypeError)) of
                   Inl e \<Rightarrow> Inl e
                 | Inr roles_path \<Rightarrow>
                    (case dict_get kw7 ''envvars'' of
                       PDict ev \<Rightarrow>
                         Inr (AList.update ''envvars''
                                (PDict (AList.update ''ANSIBLE_ROLES_PATH'' roles_path ev)) kw7)
                     | _ \<Rightarrow> Inl TypeError))))
      else Inr kwargs)"

definition playbook_block :: "pylib \<Rightarrow> pyval \<Rightarrow> dict \<times> world \<Rightarrow> error + (dict \<times> world)" where
  "playbook_block lib private_data_dir kw =
     (let (kwargs, w) = kw; given = dict_get kwargs ''playbook'' in
      if truthy given then
        (let playbook = (case given of PDict d \<Rightarrow> PList [given] | _ \<Rightarrow> given) in
         if isplaybook playbook then
           (case join_value private_data_dir ''project'' of
              Inl e \<Rightarrow> Inl e
            | Inr path \<Rightarrow>
               (case dump_artifact lib w (json_dumps lib playbook) path (Some ''main.json'') of
                  Inl e \<Rightarrow> Inl e
                | Inr (fn, w1) \<Rightarrow> Inr (AList.update ''playbook'' (PStr fn) kwargs, w1)))
         else Inr (kwargs, w))
      else Inr (kwargs, w))"

definition inventory_block :: "pylib \<Rightarrow> pyval \<Rightarrow> dict \<times> world \<Rightarrow> error + (dict \<times> world)" where
  "inventory_block lib private_data_dir kw =
     (let (kwargs, w) = kw; obj = dict_get kwargs ''inventory'' in
      if truthy obj \<and> isinventory obj then
        (case join_value private_data_dir ''inventory'' of
           Inl e \<Rightarrow> Inl e
         | Inr path \<Rightarrow>
            (case obj of
               PDict d \<Rightarrow>
                 (case dump_artifact lib w (json_dumps lib obj) path (Some ''hosts.json'') of
                    Inl e \<Rightarrow> Inl e
                  | Inr (fn, w1) \<Rightarrow> Inr (AList.update ''inventory'' (PStr fn) kwargs, w1))
             | PStr s \<Rightarrow>
                 if \<not> path_exists w (path_join path s) then
                   (case dump_artifact lib w s path (Some ''hosts'') of
                      Inl e \<Rightarrow> Inl e
                    | Inr (fn, w1) \<Rightarrow> Inr (AList.update ''inventory'' (PStr fn) kwargs, w1))
                 else if isabs s then Inr (AList.update ''inventory'' (PStr s) kwargs, w)
                 else Inr (AList.update ''inventory'' (PStr (path_join path s)) kwargs, w)
             | _ \<Rightarrow> Inr (kwargs, w)))
      else Inr (kwargs, w))"

text \<open>
  One pass of the loops over the keys of \<^verbatim>\<open>env/\<close>: \<open>render\<close> is \<^verbatim>\<open>json.dumps\<close> in the
  first loop and \<^verbatim>\<open>str\<close> in the second. The path is joined only for a value that is
  true.
\<close>

definition env_key_step ::
  "pylib \<Rightarrow> pyval \<Rightarrow> (pyval \<Rightarrow> string) \<Rightarrow> string \<Rightarrow> dict \<times> world \<Rightarrow> error + (dict \<times> world)" where
  "env_key_step lib private_data_dir render key kw =
     (let (kwargs, w) = kw; obj = dict_get kwargs key in
      if truthy obj then
        (case join_value private_data_dir ''env'' of
           Inl e \<Rightarrow> Inl e
         | Inr path \<Rightarrow>
            if \<not> path_exists w (path_join path key) then
              (case dump_artifact lib w (render obj) path (Some key) of
                 Inl e \<Rightarrow> Inl e
               | Inr (fn, w1) \<Rightarrow> Inr (AList.delete key kwargs, w1))
            else Inr (kwargs, w))
      else Inr (kwargs, w))"

fun env_keys_loop ::
  "pylib \<Rightarrow> pyval \<Rightarrow> (pyval \<Rightarrow> string) \<Rightarrow> string list \<Rightarrow> dict \<times> world \<Rightarrow> error + (dict \<times> world)" where
  "env_keys_loop lib private_data_dir render [] kw = Inr kw"
| "env_keys_loop lib private_data_dir render (key # keys) kw =
     (case env_key_step lib private_data_dir render key kw of
        Inl e \<Rightarrow> Inl e
      | Inr kw1 \<Rightarrow> env_keys_loop lib private_data_dir render keys kw1)"

definition str_of :: "pylib \<Rightarrow> pyval \<Rightarrow> string" where
  "str_of lib v = (case v of PStr s \<Rightarrow> s | _ \<Rightarrow> py_str lib v)"

definition env_block :: "pylib \<Rightarrow> pyval \<Rightarrow> dict \<times> world \<Rightarrow> error + (dict \<times> world)" where
  "env_block lib private_data_dir kw =
     (if \<not> truthy (dict_get_default (fst kw) ''suppress_env_files'' (PBool False)) then
        (case env_keys_loop lib private_data_dir (json_dumps lib)
                [''envvars'', ''extravars'', ''passwords'', ''settings''] kw of
           Inl e \<Rightarrow> Inl e
         | Inr kw1 \<Rightarrow>
             env_keys_loop lib private_data_dir (str_of lib) [''ssh_key'', ''cmdline''] kw1)
      else Inr kw)"

definition dump_artifacts :: "pylib \<Rightarrow> world \<Rightarrow> dict \<Rightarrow> error + (dict \<times> world)" where
  "dump_artifacts lib w kwargs =
     (case ensure_private_data_dir w kwargs of
        Inl e \<Rightarrow> Inl e
      | Inr (private_data_dir, kwargs1, w1) \<Rightarrow>
         (case role_block private_data_dir kwargs1 of
            Inl e \<Rightarrow> Inl e
          | Inr kwargs2 \<Rightarrow>
             (case playbook_block lib private_data_dir (kwargs2, w1) of
                Inl e \<Rightarrow> Inl e
              | Inr kw3 \<Rightarrow>
                 (case inventory_block lib private_data_dir kw3 of
                    Inl e \<Rightarrow> Inl e
                  | Inr kw4 \<Rightarrow> env_block lib private_data_dir kw4))))"

subsection \<open>Words for what a call leaves alone\<close>

text \<open>
  \<open>new_writes w w'\<close> are the writes logged since \<open>w\<close>. \<open>touches_only S P w w'\<close>: from \<open>w\<close> to
  \<open>w'\<close> the nodes at keys outside \<open>S\<close> are the same, every directory is still a directory,
  the working directory and the limits are the same, and the writes logged since \<open>w\<close>
  all went to paths in \<open>P\<close>. \<open>wf_world\<close>: every node of the world lies in a directory.
\<close>

definition new_writes :: "world \<Rightarrow> world \<Rightarrow> (string \<times> string) list" where
  "new_writes w w' = drop (length (file_writes w)) (file_writes w')"

definition touches_only :: "key set \<Rightarrow> string set \<Rightarrow> world \<Rightarrow> world \<Rightarrow> bool" where
  "touches_only S P w w' =
     ((\<forall>j. j \<notin> S \<longrightarrow> node_at w' j = node_at w j) \<and>
      (\<forall>j. node_at w j = Some Dir \<longrightarrow> node_at w' j = Some Dir) \<and>
      cwd w' = cwd w \<and> name_max w' = name_max w \<and> path_max w' = path_max w \<and>
      take (length (file_writes w)) (file_writes w') = file_writes w \<and>
      length (file_writes w) \<le> length (file_writes w') \<and>
      fst ` set (new_writes w w') \<subseteq> P)"

definition wf_world :: "world \<Rightarrow> bool" where
  "wf_world w = list_all (\<lambda>(k, n). k = [] \<or> node_at w (butlast k) = Some Dir) (files w)"

text \<open>The file of one key under \<^verbatim>\<open>env/\<close>, and the six keys in the order of the loops.\<close>

definition env_file :: "string \<Rightarrow> string \<Rightarrow> string" where
  "env_file private_data_dir key = path_join (path_join private_data_dir ''env'') key"

definition env_keys :: "string list" where
  "env_keys = [''envvars'', ''extravars'', ''passwords'', ''settings'', ''ssh_key'', ''cmdline'']"

definition role_keys :: "string set" where
  "role_keys = {''role'', ''role_vars'', ''hosts'', ''role_skip_facts'', ''roles_path''}"

definition managed_keys :: "string set" where
  "managed_keys = {''private_data_dir'', ''playbook'', ''inventory''} \<union> set env_keys"

text \<open>
  What the loops make of the value of a key (\<^verbatim>\<open>json.dumps\<close> in the first loop, \<^verbatim>\<open>str\<close> in
  the second), and the test \<^verbatim>\<open>kwargs.get('suppress_env_files', False)\<close>.
\<close>

definition env_render :: "pylib \<Rightarrow> string \<Rightarrow> pyval \<Rightarrow> string" where
  "env_render lib key = (if key \<in> {''ssh_key'', ''cmdline''} then str_of lib else json_dumps lib)"

definition suppressed :: "dict \<Rightarrow> bool" where
  "suppressed kwargs = truthy (dict_get_default kwargs ''suppress_env_files'' (PBool False))"

text \<open>
  When the play is dumped to \<^verbatim>\<open>project/main.json\<close>: a role was given, or the value of
  \<^verbatim>\<open>playbook\<close> is a true dictionary or list. When the file of a key is dumped under
  \<^verbatim>\<open>env/\<close>: the files are not suppressed, the file is not on disk, and the value is true
  (the role block leaves a true \<^verbatim>\<open>envvars\<close>).
\<close>

definition playbook_dumped :: "dict \<Rightarrow> bool" where
  "playbook_dumped kwargs =
     (has_key kwargs ''role'' \<or>
      truthy (dict_get kwargs ''playbook'') \<and>
      isplaybook (case dict_get kwargs ''playbook'' of
                    PDict x \<Rightarrow> PList [dict_get kwargs ''playbook'']
                  | _ \<Rightarrow> dict_get kwargs ''playbook''))"

definition env_key_dumped :: "dict \<Rightarrow> world \<Rightarrow> string \<Rightarrow> string \<Rightarrow> bool" where
  "env_key_dumped kwargs w private_data_dir key =
     (\<not> suppressed kwargs \<and> \<not> path_exists w (env_file private_data_dir key) \<and>
      (truthy (dict_get kwargs key) \<or> key = ''envvars'' \<and> has_key kwargs ''role''))"

section \<open>Example inputs\<close>

text \<open>
  A stand-in for the library on the inputs of the examples below: the JSON text
  \<^verbatim>\<open>{}\<close> parses to the empty dictionary, and \<^verbatim>\<open>e30=\<close> is its base64 encoding.
\<close>

definition example_lib :: pylib where
  "example_lib =
     \<lparr>b64decode = (\<lambda>s. if s = ''e30='' then Some ''{}'' else None),
      utf8_decode = Some,
      utf8_encode = (\<lambda>s. s),
      json_loads = (\<lambda>s. if s = ''{}'' then Inr (PDict []) else Inl ValueError),
      json_dumps = (\<lambda>v. if v = PDict [] then ''{}'' else ''{...}''),
      uuid4 = (\<lambda>n. replicate (Suc n) CHR ''u''),
      sha1_hex = (\<lambda>s. s),
      py_str = (\<lambda>v. ''?'')\<rparr>"

definition example_world :: "(key \<times> node) list \<Rightarrow> world" where
  "example_world fs =
     \<lparr>files = fs, cwd = [], name_max = 255, path_max = 4096, mtime = (\<lambda>k. 0),
      tmpdir = ''/tmp'', rand_names = [''a'', ''b''], file_writes = [], threads = [],
      pipe_writes = [], open_fds = [0, 1, 2]\<rparr>"

definition events_dir :: "(key \<times> node) list" where
  "events_dir =
     [([''ev''], Dir), ([''ev'', ''3-b-partial.json''], File ''{}''),
      ([''ev'', ''2-b.json''], File ''{}''), ([''ev'', ''1-a.json''], File ''{}'')]"

definition events_dir_bad :: "(key \<times> node) list" where
  "events_dir_bad =
     [([''ev''], Dir), ([''ev'', ''3-c.json''], File ''{}''),
      ([''ev'', ''2-b.json''], File ''{''), ([''ev'', ''1-a.json''], File ''{}'')]"

text \<open>Two complete lines written in two calls, and one event token.\<close>

definition hello_world :: "string list" where
  "hello_world = [''hello'' @ [NL], ''world'' @ [NL]]"



definition failing_lib :: pylib where
  "failing_lib = example_lib\<lparr>b64decode := (\<lambda>s. None)\<rparr>"

text \<open>A library whose \<^verbatim>\<open>json.loads\<close> finds every text nested too deep.\<close>

definition deep_lib :: pylib where
  "deep_lib = example_lib\<lparr>json_loads := (\<lambda>s. Inl RecursionError)\<rparr>"

section \<open>Event Directory Poller: proofs\<close>

lemma read_events_prefix:
  "\<exists>good. prefix good names \<and>
     map Some (fst (read_events lib w p names old)) = map (file_event lib w p) good"
proof (induction names arbitrary: old)
  case Nil
  show ?case by (rule exI[of _ "[]"]) simp
next
  case (Cons n names)
  show ?case
  proof (cases "file_event lib w p n")
    case None
    then have "fst (read_events lib w p (n # names) old) = []"
      by (auto simp: file_event_def split: sum.splits)
    then show ?thesis by (intro exI[of _ "[]"]) simp
  next
    case (Some ev)
    then obtain c where c: "read_raw w (path_join p n) = Inr c" "json_loads lib c = Inr ev"
      by (auto simp: file_event_def split: sum.splits)
    from Cons.IH[of "AList.update n (PBool True) old"] obtain good where
      g: "prefix good names"
         "map Some (fst (read_events lib w p names (AList.update n (PBool True) old))) = map (file_event lib w p) good"
      by blast
    have "fst (read_events lib w p (n # names) old) = ev # fst (read_events lib w p names (AList.update n (PBool True) old))"
      using c by (simp split: prod.splits)
    with g Some show ?thesis
      by (intro exI[of _ "n # good"]) simp
  qed
qed

lemma read_events_all_good:
  "\<forall>n\<in>set names. file_event lib w p n \<noteq> None \<Longrightarrow>
   map Some (fst (read_events lib w p names old)) = map (file_event lib w p) names \<and>
   fst (snd (read_events lib w p names old)) = foldl (\<lambda>d n. AList.update n (PBool True) d) old names \<and>
   snd (snd (read_events lib w p names old)) = None"
proof (induction names arbitrary: old)
  case Nil
  then show ?case by simp
next
  case (Cons n names)
  from Cons.prems obtain c ev where c: "read_raw w (path_join p n) = Inr c" "json_loads lib c = Inr ev"
    by (auto simp: file_event_def split: sum.splits)
  have fe: "file_event lib w p n = Some ev" using c by (simp add: file_event_def)
  from Cons.prems have "\<forall>n\<in>set names. file_event lib w p n \<noteq> None" by simp
  from Cons.IH[OF this, of "AList.update n (PBool True) old"] c fe
  show ?case by (auto split: prod.splits)
qed

lemma read_events_append:
  "\<forall>n\<in>set good. file_event lib w p n \<noteq> None \<Longrightarrow>
   read_events lib w p (good @ rest) old =
     (let (evs, old', r) = read_events lib w p rest (foldl (\<lambda>d n. AList.update n (PBool True) d) old good)
      in (fst (read_events lib w p good old) @ evs, old', r))"
proof (induction good arbitrary: old)
  case Nil
  then show ?case by (simp split: prod.splits)
next
  case (Cons n good)
  from Cons.prems obtain c ev where c: "read_raw w (path_join p n) = Inr c" "json_loads lib c = Inr ev"
    by (auto simp: file_event_def split: sum.splits)
  from Cons.prems have "\<forall>n\<in>set good. file_event lib w p n \<noteq> None" by simp
  from Cons.IH[OF this, of "AList.update n (PBool True) old"] c
  show ?case by (simp split: prod.splits)
qed

lemma two_sorted_unique:
  fixes f :: "'a \<Rightarrow> int"
  assumes "distinct xs" "set xs = {a, b}" "a \<noteq> b" "sorted (map f xs)" "f a < f b"
  shows "xs = [a, b]"
proof -
  have "length xs = 2" using assms(1-3) distinct_card[of xs] by simp
  then obtain x y where xs: "xs = [x, y]"
    by (metis (no_types, opaque_lifting) One_nat_def Suc_1 length_0_conv length_Suc_conv)
  with assms show ?thesis by (auto simp: doubleton_eq_iff)
qed

lemma example_selection:
  assumes "set ds = {''1-a.json'', ''2-b.json'', ''3-b-partial.json''}" "distinct ds"
  shows "dir_events_actual ds [] = [''1-a.json'', ''2-b.json'']"
proof -
  let ?P = "\<lambda>each_file. event_name_match each_file \<and> \<not> sublist ''-partial'' each_file \<and> \<not> has_key [] each_file"
  have P1: "?P ''1-a.json''" and P2: "?P ''2-b.json''" and P3: "\<not> ?P ''3-b-partial.json''"
    by (simp_all add: event_name_match_def is_ascii_digit_def dot_plus_json_def NL_def has_key_def sublist_code suffix_to_prefix)
  have s: "set (filter ?P ds) = {''1-a.json'', ''2-b.json''}"
    using assms(1) P1 P2 P3 by auto
  have d: "distinct (filter ?P ds)" using assms(2) by simp
  let ?xs = "sort_key sequence_number (filter ?P ds)"
  have "?xs = [''1-a.json'', ''2-b.json'']"
  proof (rule two_sorted_unique[where f = sequence_number])
    show "distinct ?xs" using d by simp
    show "set ?xs = {''1-a.json'', ''2-b.json''}" using s by simp
    show "sorted (map sequence_number ?xs)" by (rule sorted_sort_key)
    show "sequence_number ''1-a.json'' < sequence_number ''2-b.json''"
      by (simp add: sequence_number_def int_of_digits_def)
  qed simp
  then show ?thesis by (simp add: dir_events_actual_def)
qed

text \<open>
  C6. A poll yields only the events of files whose names match the event file pattern,
  hold no \<^verbatim>\<open>-partial\<close> and are not keys of the caller's seen dictionary, in ascending
  order of the number before the first dash. With the files \<^verbatim>\<open>1-a.json\<close>, \<^verbatim>\<open>2-b.json\<close>
  and \<^verbatim>\<open>3-b-partial.json\<close> (listed in any order) and an empty seen dictionary it yields
  the event of \<^verbatim>\<open>1-a.json\<close>, then that of \<^verbatim>\<open>2-b.json\<close>, and nothing else.
\<close>

theorem collect_new_events_selection:
  "(\<exists>names.
      map Some (fst (collect_new_events lib w event_path old_events)) = map (file_event lib w event_path) names \<and>
      sorted (map sequence_number names) \<and>
      (\<forall>n\<in>set names. event_name_match n \<and> \<not> sublist ''-partial'' n \<and> \<not> has_key old_events n))
   \<and>
   (listdir w event_path = Inr ds \<and>
    set ds = {''1-a.json'', ''2-b.json'', ''3-b-partial.json''} \<and> distinct ds \<and>
    file_event lib w event_path ''1-a.json'' = Some e1 \<and>
    file_event lib w event_path ''2-b.json'' = Some e2
    \<longrightarrow> fst (collect_new_events lib w event_path []) = [e1, e2])"
proof (intro conjI impI)
  show "\<exists>names.
      map Some (fst (collect_new_events lib w event_path old_events)) = map (file_event lib w event_path) names \<and>
      sorted (map sequence_number names) \<and>
      (\<forall>n\<in>set names. event_name_match n \<and> \<not> sublist ''-partial'' n \<and> \<not> has_key old_events n)"
  proof (cases "listdir w event_path")
    case (Inl e)
    then show ?thesis by (intro exI[of _ "[]"]) (simp add: collect_new_events_def)
  next
    case (Inr dir_events)
    let ?sel = "dir_events_actual dir_events old_events"
    from read_events_prefix[of ?sel lib w event_path old_events] obtain good where
      g: "prefix good ?sel"
         "map Some (fst (read_events lib w event_path ?sel old_events)) = map (file_event lib w event_path) good"
      by blast
    have srt: "sorted (map sequence_number ?sel)"
      by (simp add: dir_events_actual_def)
    from g(1) obtain rest where r: "?sel = good @ rest" by (auto simp: prefix_def)
    have "sorted (map sequence_number good)" using srt unfolding r by (simp add: sorted_append)
    moreover have "set good \<subseteq> set ?sel" unfolding r by simp
    then have "\<forall>n\<in>set good. event_name_match n \<and> \<not> sublist ''-partial'' n \<and> \<not> has_key old_events n"
      by (auto simp: dir_events_actual_def)
    ultimately show ?thesis using g(2) Inr
      by (intro exI[of _ good]) (simp add: collect_new_events_def)
  qed
next
  assume a: "listdir w event_path = Inr ds \<and>
    set ds = {''1-a.json'', ''2-b.json'', ''3-b-partial.json''} \<and> distinct ds \<and>
    file_event lib w event_path ''1-a.json'' = Some e1 \<and>
    file_event lib w event_path ''2-b.json'' = Some e2"
  then have sel: "dir_events_actual ds [] = [''1-a.json'', ''2-b.json'']"
    by (intro example_selection) simp_all
  from a have "\<forall>n\<in>set [''1-a.json'', ''2-b.json'']. file_event lib w event_path n \<noteq> None" by simp
  from read_events_all_good[OF this, of "[]"] a
  have "map Some (fst (read_events lib w event_path [''1-a.json'', ''2-b.json''] [])) = map Some [e1, e2]"
    by simp
  then have "fst (read_events lib w event_path [''1-a.json'', ''2-b.json''] []) = [e1, e2]"
    by (simp only: inj_map_eq_map[OF inj_Some])
  with a sel show "fst (collect_new_events lib w event_path []) = [e1, e2]"
    by (simp add: collect_new_events_def)
qed

lemmas poll_eval = collect_new_events_def listdir_def stat_path_def resolve_def node_at_def
    components_def step_def slashed_def children_def example_world_def events_dir_def events_dir_bad_def
    dir_events_actual_def event_name_match_def is_ascii_digit_def dot_plus_json_def NL_def has_key_def sequence_number_def int_of_digits_def
     path_join_def isabs_def read_raw_def example_lib_def sublist_code suffix_to_prefix file_event_def

theorem collect_new_events_selection_witness:
  "listdir (example_world events_dir) ''/ev'' = Inr [''3-b-partial.json'', ''2-b.json'', ''1-a.json''] \<and>
   file_event example_lib (example_world events_dir) ''/ev'' ''1-a.json'' = Some (PDict []) \<and>
   file_event example_lib (example_world events_dir) ''/ev'' ''2-b.json'' = Some (PDict []) \<and>
   fst (collect_new_events example_lib (example_world events_dir) ''/ev'' []) = [PDict [], PDict []] \<and>
   (\<exists>names.
      map Some (fst (collect_new_events example_lib (example_world events_dir) ''/ev'' [])) =
        map (file_event example_lib (example_world events_dir) ''/ev'') names \<and>
      sorted (map sequence_number names) \<and>
      list_all (\<lambda>n. event_name_match n \<and> \<not> sublist ''-partial'' n \<and> \<not> has_key [] n) names)"
proof -
  have h1: "listdir (example_world events_dir) ''/ev'' = Inr [''3-b-partial.json'', ''2-b.json'', ''1-a.json'']"
    by (simp add: poll_eval)
  have h2: "file_event example_lib (example_world events_dir) ''/ev'' ''1-a.json'' = Some (PDict [])"
    "file_event example_lib (example_world events_dir) ''/ev'' ''2-b.json'' = Some (PDict [])"
    by (simp_all add: poll_eval)
  have h3: "set [''3-b-partial.json'', ''2-b.json'', ''1-a.json''] = {''1-a.json'', ''2-b.json'', ''3-b-partial.json''}"
    "distinct [''3-b-partial.json'', ''2-b.json'', ''1-a.json'']"
    by auto
  note t = collect_new_events_selection[of example_lib "example_world events_dir" "''/ev''" "[]"
      "[''3-b-partial.json'', ''2-b.json'', ''1-a.json'']" "PDict []" "PDict []"]
  from t h1 h2 h3 have c: "fst (collect_new_events example_lib (example_world events_dir) ''/ev'' []) = [PDict [], PDict []]"
    by blast
  from t have "\<exists>names.
      map Some (fst (collect_new_events example_lib (example_world events_dir) ''/ev'' [])) =
        map (file_event example_lib (example_world events_dir) ''/ev'') names \<and>
      sorted (map sequence_number names) \<and>
      (\<forall>n\<in>set names. event_name_match n \<and> \<not> sublist ''-partial'' n \<and> \<not> has_key [] n)"
    by blast
  then have e: "\<exists>names.
      map Some (fst (collect_new_events example_lib (example_world events_dir) ''/ev'' [])) =
        map (file_event example_lib (example_world events_dir) ''/ev'') names \<and>
      sorted (map sequence_number names) \<and>
      list_all (\<lambda>n. event_name_match n \<and> \<not> sublist ''-partial'' n \<and> \<not> has_key [] n) names"
    by (simp add: list_all_iff)
  from h1 h2 c e show ?thesis by blast
qed

lemma has_key_marked:
  "has_key (foldl (\<lambda>d n. AList.update n (PBool True) d) old names) k \<longleftrightarrow> k \<in> set names \<or> has_key old k"
  by (induction names arbitrary: old) (auto simp: has_key_def update_conv')

text \<open>
  C2, as the code has it. When the first selected file that does not parse is \<open>bad\<close>,
  its content making \<^verbatim>\<open>json.load\<close> raise \<open>e\<close>, the poll yields the events of the files
  before it, marks exactly those earlier files in the seen dictionary and leaves \<open>bad\<close>
  unmarked: a later poll with the same listing and the returned dictionary selects \<open>bad\<close>
  again. The poll raises nothing when \<open>e\<close> is a \<^verbatim>\<open>ValueError\<close>, and raises \<open>e\<close> to its
  caller otherwise.
\<close>

theorem collect_new_events_parse_failure:
  assumes "listdir w event_path = Inr dir_events"
      and "dir_events_actual dir_events old_events = good @ bad # rest"
      and "\<forall>n\<in>set good. file_event lib w event_path n \<noteq> None"
      and "read_raw w (path_join event_path bad) = Inr c"
      and "json_loads lib c = Inl e"
      and "collect_new_events lib w event_path old_events = (evs, old', r)"
  shows "map Some evs = map (file_event lib w event_path) good \<and>
         r = (if e = ValueError then None else Some e) \<and>
         old' = foldl (\<lambda>d n. AList.update n (PBool True) d) old_events good \<and>
         \<not> has_key old' bad \<and> bad \<in> set (dir_events_actual dir_events old')"
proof -
  let ?old = "foldl (\<lambda>d n. AList.update n (PBool True) d) old_events good"
  let ?r = "if e = ValueError then None else Some e"
  have stop: "read_events lib w event_path (bad # rest) ?old = ([], ?old, ?r)"
    using assms(4,5) by simp
  have "read_events lib w event_path (good @ bad # rest) old_events =
          (fst (read_events lib w event_path good old_events), ?old, ?r)"
    using read_events_append[OF assms(3), of "bad # rest" old_events] stop
    by (simp del: read_events.simps)
  with assms(1,2,6) have res: "evs = fst (read_events lib w event_path good old_events)"
      "old' = ?old" "r = ?r"
    by (simp_all add: collect_new_events_def)
  have evs: "map Some evs = map (file_event lib w event_path) good"
    using read_events_all_good[OF assms(3), of old_events] res(1) by simp
  have badnone: "file_event lib w event_path bad = None"
    using assms(4,5) by (simp add: file_event_def)
  then have notgood: "bad \<notin> set good" using assms(3) by auto
  have sel: "bad \<in> set (dir_events_actual dir_events old_events)"
    using assms(2) by simp
  then have props: "bad \<in> set dir_events" "event_name_match bad" "\<not> sublist ''-partial'' bad"
      "\<not> has_key old_events bad"
    by (auto simp: dir_events_actual_def)
  have unmarked: "\<not> has_key old' bad"
    using notgood props(4) by (simp add: res(2) has_key_marked)
  then have "bad \<in> set (dir_events_actual dir_events old')"
    using props by (simp add: dir_events_actual_def)
  with evs res unmarked show ?thesis by simp
qed

theorem collect_new_events_parse_failure_witness:
  "listdir (example_world events_dir_bad) ''/ev'' = Inr [''3-c.json'', ''2-b.json'', ''1-a.json''] \<and>
   dir_events_actual [''3-c.json'', ''2-b.json'', ''1-a.json''] [] = [''1-a.json''] @ ''2-b.json'' # [''3-c.json''] \<and>
   file_event example_lib (example_world events_dir_bad) ''/ev'' ''1-a.json'' = Some (PDict []) \<and>
   read_raw (example_world events_dir_bad) (path_join ''/ev'' ''2-b.json'') = Inr ''{'' \<and>
   json_loads example_lib ''{'' = Inl ValueError \<and>
   collect_new_events example_lib (example_world events_dir_bad) ''/ev'' [] = ([PDict []], [(''1-a.json'', PBool True)], None) \<and>
   \<not> has_key [(''1-a.json'', PBool True)] ''2-b.json'' \<and>
   ''2-b.json'' \<in> set (dir_events_actual [''3-c.json'', ''2-b.json'', ''1-a.json''] [(''1-a.json'', PBool True)])"
proof -
  have h1: "listdir (example_world events_dir_bad) ''/ev'' = Inr [''3-c.json'', ''2-b.json'', ''1-a.json'']"
    by (simp add: poll_eval)
  have h2: "dir_events_actual [''3-c.json'', ''2-b.json'', ''1-a.json''] [] = [''1-a.json''] @ ''2-b.json'' # [''3-c.json'']"
    by (simp add: poll_eval)
  have h3: "\<forall>n\<in>set [''1-a.json'']. file_event example_lib (example_world events_dir_bad) ''/ev'' n \<noteq> None"
    by (simp add: poll_eval)
  have h4: "read_raw (example_world events_dir_bad) (path_join ''/ev'' ''2-b.json'') = Inr ''{''"
    by (simp add: poll_eval)
  have h5: "json_loads example_lib ''{'' = Inl ValueError"
    by (simp add: poll_eval)
  have h6: "collect_new_events example_lib (example_world events_dir_bad) ''/ev'' [] = ([PDict []], [(''1-a.json'', PBool True)], None)"
    by (simp add: poll_eval)
  have h7: "file_event example_lib (example_world events_dir_bad) ''/ev'' ''1-a.json'' = Some (PDict [])"
    by (simp add: poll_eval)
  from collect_new_events_parse_failure[OF h1 h2 h3 h4 h5 h6] h1 h2 h4 h5 h6 h7
  show ?thesis by simp
qed

text \<open>
  C2 as stated fails twice. The file that does not parse is not marked as seen: here
  \<^verbatim>\<open>2-b.json\<close> holds the text \<^verbatim>\<open>{\<close>. And a file on which \<^verbatim>\<open>json.load\<close> raises something
  other than a \<^verbatim>\<open>ValueError\<close> makes the poll raise: see \<open>collect_new_events_raises\<close>.
\<close>

theorem collect_new_events_marks_bad_counterexample:
  "\<not> (\<forall>lib w event_path old_events ds bad c.
        listdir w event_path = Inr ds \<and> bad \<in> set (dir_events_actual ds old_events) \<and>
        read_raw w (path_join event_path bad) = Inr c \<and> json_loads lib c = Inl ValueError
        \<longrightarrow> has_key (fst (snd (collect_new_events lib w event_path old_events))) bad)"
proof
  assume a: "\<forall>lib w event_path old_events ds bad c.
        listdir w event_path = Inr ds \<and> bad \<in> set (dir_events_actual ds old_events) \<and>
        read_raw w (path_join event_path bad) = Inr c \<and> json_loads lib c = Inl ValueError
        \<longrightarrow> has_key (fst (snd (collect_new_events lib w event_path old_events))) bad"
  from a have "listdir (example_world events_dir_bad) ''/ev'' = Inr [''3-c.json'', ''2-b.json'', ''1-a.json''] \<and>
        ''2-b.json'' \<in> set (dir_events_actual [''3-c.json'', ''2-b.json'', ''1-a.json''] []) \<and>
        read_raw (example_world events_dir_bad) (path_join ''/ev'' ''2-b.json'') = Inr ''{'' \<and>
        json_loads example_lib ''{'' = Inl ValueError
        \<longrightarrow> has_key (fst (snd (collect_new_events example_lib (example_world events_dir_bad) ''/ev'' []))) ''2-b.json''"
    by blast
  then show False by (simp add: poll_eval)
qed

lemma collect_new_events_raises:
  "collect_new_events (example_lib\<lparr>json_loads := (\<lambda>s. if s = ''{}'' then Inr (PDict []) else Inl RecursionError)\<rparr>)
     (example_world events_dir_bad) ''/ev'' [] = ([PDict []], [(''1-a.json'', PBool True)], Some RecursionError)"
  by (simp add: poll_eval)

section \<open>Event Stream Decoder: counters and line ranges\<close>

lemma final_state_simps [simp]:
  "final_state (Inl (e, st)) = st" "final_state (Inr st) = st"
  by (simp_all add: final_state_def)

lemma field_values_snoc:
  "field_values k (evs @ [ev]) = field_values k evs @ (case map_of ev k of None \<Rightarrow> [] | Some v \<Rightarrow> [v])"
  by (simp add: field_values_def List.map_filter_def split: option.splits)

lemma counted_snoc: "counted (evs @ [ev]) = counted evs @ (if has_key ev ''counter'' then [ev] else [])"
  by (simp add: counted_def)

lemma line_chain_snoc:
  "line_chain a evs b \<Longrightarrow> map_of ev ''start_line'' = Some (PInt b) \<Longrightarrow>
   map_of ev ''end_line'' = Some (PInt c) \<Longrightarrow> line_chain a (evs @ [ev]) c"
  by (induction evs arbitrary: a) (auto split: option.splits pyval.splits)

lemma decoder_inv_update [simp]:
  "decoder_inv (st\<lparr>buffer := b\<rparr>) = decoder_inv st"
  "decoder_inv (st\<lparr>last_chunk := l\<rparr>) = decoder_inv st"
  "decoder_inv (st\<lparr>current_event_data := c\<rparr>) = decoder_inv st"
  "decoder_inv (st\<lparr>console := x\<rparr>) = decoder_inv st"
  "decoder_inv (st\<lparr>transcript := y\<rparr>) = decoder_inv st"
  "decoder_inv (st\<lparr>uuids_drawn := n\<rparr>) = decoder_inv st"
  by (simp_all add: decoder_inv_def)

lemma emit_chunk_event:
  assumes "emit_chunk lib (ed, st) chunk = (ed', st')"
  shows "callback_events st' = callback_events st @ [ed']"
    and "counter st' = counter st + 1"
    and "start_line st' = start_line st + count_newlines chunk"
    and "map_of ed' ''counter'' = Some (PInt (counter st + 1))"
    and "map_of ed' ''start_line'' = Some (PInt (start_line st))"
    and "map_of ed' ''end_line'' = Some (PInt (start_line st + count_newlines chunk))"
    and "map_of ed' ''stdout'' = Some (PStr (rstrip_newlines chunk))"
    and "chunks_emitted st' = chunks_emitted st @ [chunk]"
  using assms
  by (auto simp: emit_chunk_def Let_def update_conv' split: if_splits)

lemma emit_chunk_inv:
  assumes "decoder_inv st" "emit_chunk lib (ed, st) chunk = (ed', st')"
  shows "decoder_inv st'"
proof -
  note e = emit_chunk_event[OF assms(2)]
  define chunks where "chunks = chunks_emitted st"
  from assms(1) have
    c0: "0 \<le> counter st" and
    fv: "field_values ''counter'' (callback_events st) = map PInt [1..counter st]" and
    lc: "line_chain 0 (counted (callback_events st)) (start_line st)" and
    sp: "list_all2 span_of chunks (counted (callback_events st))" and
    sm: "start_line st = sum_list (map count_newlines chunks)"
    by (auto simp: decoder_inv_def chunks_def)
  have hk: "has_key ed' ''counter''" using e(4) by (simp add: has_key_def)
  have cnt: "counted (callback_events st') = counted (callback_events st) @ [ed']"
    using e(1) hk by (simp add: counted_snoc)
  have 1: "0 \<le> counter st'" using c0 e(2) by simp
  have up: "[1..counter st + 1] = [1..counter st] @ [counter st + 1]"
    using c0 by (simp add: upto_rec2)
  have 2: "field_values ''counter'' (callback_events st') = map PInt [1..counter st']"
    using fv e(1,2,4) up by (simp add: field_values_snoc)
  have 3: "line_chain 0 (counted (callback_events st')) (start_line st')"
    unfolding cnt e(3) by (rule line_chain_snoc[OF lc e(5) e(6)])
  have so: "span_of chunk ed'" using e(5,6,7) by (simp add: span_of_def)
  have 4: "list_all2 span_of (chunks @ [chunk]) (counted (callback_events st'))"
    unfolding cnt using sp so by (simp add: list_all2_appendI)
  have 5: "start_line st' = sum_list (map count_newlines (chunks @ [chunk]))"
    using sm e(3) by simp
  from 1 2 3 4 5 show ?thesis unfolding decoder_inv_def e(8) chunks_def by blast
qed

lemma foldl_emit_chunk_inv:
  "decoder_inv st \<Longrightarrow> foldl (emit_chunk lib) (ed, st) chunks = (ed', st') \<Longrightarrow> decoder_inv st'"
proof (induction chunks arbitrary: ed st)
  case Nil
  then show ?case by simp
next
  case (Cons c cs)
  obtain ed1 st1 where s: "emit_chunk lib (ed, st) c = (ed1, st1)" by (cases "emit_chunk lib (ed, st) c")
  from emit_chunk_inv[OF Cons.prems(1) s] have "decoder_inv st1" .
  from Cons.IH[OF this] Cons.prems(2) s show ?case by simp
qed

lemma emit_event_inv:
  assumes "decoder_inv st"
  shows "decoder_inv (case OutputEventFilter_emit_event lib txt nxt st of Inl (e, s) \<Rightarrow> s | Inr (ed, s) \<Rightarrow> s)"
proof -
  define start where "start = (case current_event_data st of
               Some cur \<Rightarrow>
                 if cur \<noteq> [] then (cur, [txt])
                 else if txt \<noteq> []
                 then ([(''event'', PStr ''verbose'')], splitlines txt)
                 else ([], [])
             | None \<Rightarrow>
                 if txt \<noteq> []
                 then ([(''event'', PStr ''verbose'')], splitlines txt)
                 else ([], []))"
  obtain ed0 chunks where s0: "start = (ed0, chunks)" by (cases start)
  obtain ed1 st1 where f: "foldl (emit_chunk lib) (ed0, st) chunks = (ed1, st1)"
    by (cases "foldl (emit_chunk lib) (ed0, st) chunks")
  from foldl_emit_chunk_inv[OF assms f] have i1: "decoder_inv st1" .
  have "\<And>x. decoder_inv (st1\<lparr>current_event_data := x\<rparr>)"
    using i1 by simp
  with i1 f s0 show ?thesis
    unfolding OutputEventFilter_emit_event_def Let_def start_def[symmetric]
    by (simp split: pyval.splits)
qed

lemma emit_event_inv_Inr:
  "decoder_inv st \<Longrightarrow> OutputEventFilter_emit_event lib txt nxt st = Inr (ed, s) \<Longrightarrow> decoder_inv s"
  using emit_event_inv[of st lib "txt" nxt] by simp

lemma emit_event_inv_Inl:
  "decoder_inv st \<Longrightarrow> OutputEventFilter_emit_event lib txt nxt st = Inl (e, s) \<Longrightarrow> decoder_inv s"
  using emit_event_inv[of st lib "txt" nxt] by simp

lemma echo_event_inv [simp]: "decoder_inv (echo_event txt st) = decoder_inv st"
  by (simp add: echo_event_def Let_def)

lemma echo_line_inv [simp]: "decoder_inv (echo_line txt st) = decoder_inv st"
  by (simp add: echo_line_def Let_def)

lemma show_event_inv [simp]: "decoder_inv (show_event lib ed remainder st) = decoder_inv st"
  by (simp add: show_event_def Let_def split: option.splits pyval.splits)

lemma search_loop_inv:
  "decoder_inv st \<Longrightarrow> decoder_inv (final_state (search_loop lib st))"
proof (induction lib st rule: search_loop.induct)
  case (1 lib st)
  show ?case
  proof (cases "search (buffer st)")
    case None
    then show ?thesis using "1.prems" by (subst search_loop.simps) simp
  next
    case (Some m)
    obtain head g remainder where m: "m = (head, g, remainder)" by (cases m)
    show ?thesis
    proof (cases "decode_event_data lib g")
      case (Inl e)
      with Some m "1.prems" show ?thesis by (subst search_loop.simps) simp
    next
      case d: (Inr nxt)
      show ?thesis
      proof (cases "OutputEventFilter_emit_event lib head nxt st")
        case (Inl e)
        obtain er s where "e = (er, s)" by (cases e)
        with Inl emit_event_inv_Inl[OF "1.prems"] have "decoder_inv s" by blast
        with Inl Some m d \<open>e = (er, s)\<close> show ?thesis
          by (subst search_loop.simps) simp
      next
        case (Inr r)
        obtain ed st1 where r: "r = (ed, st1)" by (cases r)
        with Inr emit_event_inv_Inr[OF "1.prems"] have i1: "decoder_inv st1" by blast
        then have i4: "decoder_inv (show_event lib ed remainder st1)" by simp
        have IH: "decoder_inv (final_state (search_loop lib (show_event lib ed remainder st1)))"
          by (rule "1.IH"[OF Some m[symmetric] refl d Inr r[symmetric] i4])
        have "search_loop lib st = search_loop lib (show_event lib ed remainder st1)"
          by (subst search_loop.simps) (simp add: Some m d Inr r)
        with IH show ?thesis by simp
      qed
    qed
  qed
qed

lemma emit_lines_inv:
  "decoder_inv st \<Longrightarrow> decoder_inv (final_state (emit_lines lib ls st))"
proof (induction ls arbitrary: st)
  case Nil
  then show ?case by simp
next
  case (Cons l ls)
  show ?case
  proof (cases "OutputEventFilter_emit_event lib l PNone st")
    case (Inl e)
    obtain er s where "e = (er, s)" by (cases e)
    with Inl emit_event_inv_Inl[OF Cons.prems] show ?thesis by simp
  next
    case (Inr r)
    obtain ed st1 where r: "r = (ed, st1)" by (cases r)
    with Inr emit_event_inv_Inr[OF Cons.prems] have "decoder_inv (echo_line l st1)" by simp
    from Cons.IH[OF this] Inr r show ?thesis by simp
  qed
qed

lemma flush_lines_inv:
  assumes i: "decoder_inv st"
  shows "decoder_inv (final_state (flush_lines lib st))"
proof -
  have k: "decoder_inv (final_state (case emit_lines lib ls st of Inl e \<Rightarrow> Inl e | Inr s \<Rightarrow> Inr (s\<lparr>buffer := b\<rparr>)))" for ls b
  proof (cases "emit_lines lib ls st")
    case (Inl e)
    with emit_lines_inv[OF i, of lib ls] show ?thesis by simp
  next
    case (Inr s)
    with emit_lines_inv[OF i, of lib ls] have "decoder_inv s" by simp
    then have "decoder_inv (s\<lparr>buffer := b\<rparr>)" by simp
    with Inr show ?thesis by simp
  qed
  show ?thesis
    unfolding flush_lines_def Let_def using i k by simp
qed

lemma write_inv:
  "decoder_inv st \<Longrightarrow> decoder_inv (final_state (OutputEventFilter_write lib data st))"
proof -
  assume i: "decoder_inv st"
  let ?st1 = "st\<lparr>buffer := buffer st @ data, last_chunk := data\<rparr>"
  have i1: "decoder_inv ?st1" using i by simp
  show ?thesis
    unfolding OutputEventFilter_write_def Let_def
    using search_loop_inv[OF i1] flush_lines_inv[OF i1] i1
    by simp
qed

lemma write_all_inv:
  "decoder_inv st \<Longrightarrow> decoder_inv (final_state (write_all lib chunks st))"
proof (induction chunks arbitrary: st)
  case Nil
  then show ?case by simp
next
  case (Cons c cs)
  show ?case
  proof (cases "OutputEventFilter_write lib c st")
    case (Inl e)
    with write_inv[OF Cons.prems, of lib c] show ?thesis by simp
  next
    case (Inr s)
    with write_inv[OF Cons.prems, of lib c] have "decoder_inv s" by simp
    from Cons.IH[OF this] Inr show ?thesis by simp
  qed
qed

lemma close_inv:
  assumes i: "decoder_inv st"
  shows "decoder_inv (final_state (OutputEventFilter_close lib st))"
proof -
  have eof: "decoder_inv (s\<lparr>callback_events := callback_events s @ [[(''event'', PStr ''EOF'')]]\<rparr>)"
    if "decoder_inv s" for s
    using that by (auto simp: decoder_inv_def field_values_snoc counted_snoc has_key_def)
  show ?thesis
  proof (cases "buffer st = []")
    case True
    with eof[OF i] show ?thesis by (simp add: OutputEventFilter_close_def)
  next
    case False
    show ?thesis
    proof (cases "OutputEventFilter_emit_event lib (buffer st) PNone st")
      case (Inl e)
      obtain er s where e: "e = (er, s)" by (cases e)
      with Inl emit_event_inv_Inl[OF i] have "decoder_inv s" by blast
      with Inl e False show ?thesis by (simp add: OutputEventFilter_close_def)
    next
      case (Inr r)
      obtain ed s where r: "r = (ed, s)" by (cases r)
      with Inr emit_event_inv_Inr[OF i] have "decoder_inv s" by blast
      then have "decoder_inv (s\<lparr>buffer := []\<rparr>)" by simp
      from eof[OF this] Inr r False show ?thesis by (simp add: OutputEventFilter_close_def)
    qed
  qed
qed

lemma init_inv: "decoder_inv (OutputEventFilter_init h s j)"
  by (simp add: decoder_inv_def OutputEventFilter_init_def field_values_def counted_def List.map_filter_def)

lemma feed_inv:
  assumes "decoder_inv st"
  shows "decoder_inv (final_state (feed lib chunks st))"
proof (cases "write_all lib chunks st")
  case (Inl e)
  with write_all_inv[OF assms, of lib chunks] show ?thesis by (simp add: feed_def)
next
  case (Inr s)
  with write_all_inv[OF assms, of lib chunks] have "decoder_inv s" by simp
  from close_inv[OF this, of lib] Inr show ?thesis by (simp add: feed_def)
qed

lemma length_field_values: "length (field_values k evs) = length (filter (\<lambda>ev. has_key ev k) evs)"
  by (induction evs) (auto simp: field_values_def List.map_filter_def has_key_def)

lemma decoder_inv_counter:
  assumes "decoder_inv st"
  shows "counter st = int (length (counted (callback_events st)))"
proof -
  from assms have c: "0 \<le> counter st"
    and f: "field_values ''counter'' (callback_events st) = map PInt [1..counter st]"
    by (auto simp: decoder_inv_def)
  have "length (counted (callback_events st)) = length (field_values ''counter'' (callback_events st))"
    by (simp add: length_field_values counted_def)
  also have "\<dots> = length [1..counter st]" unfolding f by simp
  also have "\<dots> = nat (counter st)" by simp
  finally show ?thesis using c by simp
qed

lemma line_chain_Cons_iff:
  "line_chain a (ev # evs) b \<longleftrightarrow>
     (\<exists>e. map_of ev ''start_line'' = Some (PInt a) \<and> map_of ev ''end_line'' = Some (PInt e) \<and> line_chain e evs b)"
proof (cases "map_of ev ''start_line''")
  case None
  then show ?thesis by simp
next
  case (Some v)
  note sv = Some
  show ?thesis
  proof (cases "map_of ev ''end_line''")
    case None
    with sv show ?thesis by (cases v) simp_all
  next
    case (Some u)
    with sv show ?thesis by (cases v; cases u) auto
  qed
qed

lemma line_chain_nth:
  "line_chain a evs b \<Longrightarrow> Suc i < length evs \<Longrightarrow>
   map_of (evs ! Suc i) ''start_line'' = map_of (evs ! i) ''end_line''"
proof (induction evs arbitrary: a i)
  case Nil
  then show ?case by simp
next
  case (Cons ev evs)
  from Cons.prems(1) obtain e where se: "map_of ev ''start_line'' = Some (PInt a)"
      "map_of ev ''end_line'' = Some (PInt e)" "line_chain e evs b"
    unfolding line_chain_Cons_iff by blast
  show ?case
  proof (cases i)
    case 0
    with Cons.prems(2) obtain ev' evs' where evs: "evs = ev' # evs'" by (cases evs) auto
    from se(3) have "line_chain e (ev' # evs') b" unfolding evs .
    then have "map_of ev' ''start_line'' = Some (PInt e)"
      unfolding line_chain_Cons_iff by blast
    with 0 evs se(2) show ?thesis by simp
  next
    case (Suc j)
    with Cons.prems(2) have "Suc j < length evs" by simp
    from Cons.IH[OF se(3) this] Suc show ?thesis by simp
  qed
qed

text \<open>
  C3. For every sequence of write calls followed by close, from the first write of a
  new decoder (whether or not a call raises), the counter values of the events the
  callback received are 1, 2, ..., N in that order, N being the number of events that
  carry a counter.
\<close>

theorem counter_values_one_to_n:
  "field_values ''counter'' (delivered (feed lib chunks (OutputEventFilter_init h s j))) =
     map PInt [1..int (length (counted (delivered (feed lib chunks (OutputEventFilter_init h s j)))))]"
proof -
  let ?r = "feed lib chunks (OutputEventFilter_init h s j)"
  have i: "decoder_inv (final_state ?r)" by (rule feed_inv[OF init_inv])
  then have "field_values ''counter'' (callback_events (final_state ?r)) = map PInt [1..counter (final_state ?r)]"
    by (simp add: decoder_inv_def)
  with decoder_inv_counter[OF i] show ?thesis by (simp add: delivered_def)
qed

text \<open>
  C4. For every sequence of write calls on a new decoder, with or without the closing
  call: the line ranges of the counted events start at 0, each range starts where the
  range before it ends, and the last ends at the decoder's line cursor. The counted
  events are, one for one and in order, the events of the chunks the loop of
  \<^verbatim>\<open>_emit_event\<close> went through: each reports its chunk, stripped of trailing newlines, over
  a range whose length is the number of newlines in that chunk; the cursor is the number
  of newlines in all of them.
\<close>

theorem line_ranges_partition:
  "\<forall>r \<in> {write_all lib chunks (OutputEventFilter_init h s j), feed lib chunks (OutputEventFilter_init h s j)}.
     line_chain 0 (counted (delivered r)) (start_line (final_state r)) \<and>
     (\<forall>i. Suc i < length (counted (delivered r)) \<longrightarrow>
        map_of (counted (delivered r) ! Suc i) ''start_line'' = map_of (counted (delivered r) ! i) ''end_line'') \<and>
     list_all2 span_of (chunks_emitted (final_state r)) (counted (delivered r)) \<and>
     start_line (final_state r) = sum_list (map count_newlines (chunks_emitted (final_state r)))"
proof -
  have k: "line_chain 0 (counted (delivered r)) (start_line (final_state r)) \<and>
     (\<forall>i. Suc i < length (counted (delivered r)) \<longrightarrow>
        map_of (counted (delivered r) ! Suc i) ''start_line'' = map_of (counted (delivered r) ! i) ''end_line'') \<and>
     list_all2 span_of (chunks_emitted (final_state r)) (counted (delivered r)) \<and>
     start_line (final_state r) = sum_list (map count_newlines (chunks_emitted (final_state r)))"
    if i: "decoder_inv (final_state r)" for r
  proof -
    from i have lc: "line_chain 0 (counted (delivered r)) (start_line (final_state r))"
      and ex: "list_all2 span_of (chunks_emitted (final_state r)) (counted (delivered r))"
           "start_line (final_state r) = sum_list (map count_newlines (chunks_emitted (final_state r)))"
      by (auto simp: decoder_inv_def delivered_def)
    from line_chain_nth[OF lc] lc ex show ?thesis by blast
  qed
  have "decoder_inv (final_state (write_all lib chunks (OutputEventFilter_init h s j)))"
    by (rule write_all_inv[OF init_inv])
  moreover have "decoder_inv (final_state (feed lib chunks (OutputEventFilter_init h s j)))"
    by (rule feed_inv[OF init_inv])
  ultimately show ?thesis using k by blast
qed

lemmas decoder_eval = feed_def OutputEventFilter_write_def OutputEventFilter_close_def
  OutputEventFilter_init_def OutputEventFilter_emit_event_def emit_chunk_def flush_lines_def
  echo_line_def echo_event_def marker_def ESC_def NL_def CR_def is_linebreak_def
  sublist_code dict_get_def has_key_def rstrip_newlines_def count_newlines_def
  show_event_def delivered_def example_lib_def Let_def

lemma hello_world_run:
  "final_state (feed example_lib hello_world (OutputEventFilter_init True False False)) =
    \<lparr>counter = 2, start_line = 2, buffer = [], last_chunk = ''world'' @ [NL],
     current_event_data = None, output_json = False, suppress_ansible_output = False,
     transcript = Some [''hello'' @ [NL], ''world'' @ [NL]],
     callback_events =
      [[(''event'', PStr ''verbose''), (''uuid'', PStr ''u''),
        (''counter'', PInt 1), (''stdout'', PStr ''hello''),
        (''start_line'', PInt 0), (''end_line'', PInt 1)],
       [(''event'', PStr ''verbose''), (''uuid'', PStr ''uu''),
        (''counter'', PInt 2), (''stdout'', PStr ''world''),
        (''start_line'', PInt 1), (''end_line'', PInt 2)],
       [(''event'', PStr ''EOF'')]],
     console = [''hello'' @ [NL], ''world'' @ [NL]], uuids_drawn = 2,
     chunks_emitted = [''hello'' @ [NL], ''world'' @ [NL]]\<rparr>"
  by (simp add: hello_world_def decoder_eval)

theorem counter_values_one_to_n_witness:
  "field_values ''counter'' (delivered (feed example_lib hello_world (OutputEventFilter_init True False False))) =
     map PInt [1..int (length (counted (delivered (feed example_lib hello_world (OutputEventFilter_init True False False)))))] \<and>
   field_values ''counter'' (delivered (feed example_lib hello_world (OutputEventFilter_init True False False))) =
     [PInt 1, PInt 2]"
  using counter_values_one_to_n[of example_lib hello_world True False False]
  by (simp add: delivered_def hello_world_run field_values_def List.map_filter_def)

theorem line_ranges_partition_witness:
  "line_chain 0 (counted (delivered (feed example_lib hello_world (OutputEventFilter_init True False False))))
     (start_line (final_state (feed example_lib hello_world (OutputEventFilter_init True False False)))) \<and>
   Suc 0 < length (counted (delivered (feed example_lib hello_world (OutputEventFilter_init True False False)))) \<and>
   map_of (counted (delivered (feed example_lib hello_world (OutputEventFilter_init True False False))) ! Suc 0) ''start_line'' =
     map_of (counted (delivered (feed example_lib hello_world (OutputEventFilter_init True False False))) ! 0) ''end_line'' \<and>
   map_of (counted (delivered (feed example_lib hello_world (OutputEventFilter_init True False False))) ! 0) ''end_line'' = Some (PInt 1) \<and>
   chunks_emitted (final_state (feed example_lib hello_world (OutputEventFilter_init True False False))) =
     [''hello'' @ [NL], ''world'' @ [NL]] \<and>
   list_all2 span_of (chunks_emitted (final_state (feed example_lib hello_world (OutputEventFilter_init True False False))))
     (counted (delivered (feed example_lib hello_world (OutputEventFilter_init True False False)))) \<and>
   start_line (final_state (feed example_lib hello_world (OutputEventFilter_init True False False))) =
     sum_list (map count_newlines
       (chunks_emitted (final_state (feed example_lib hello_world (OutputEventFilter_init True False False)))))"
proof -
  let ?r = "feed example_lib hello_world (OutputEventFilter_init True False False)"
  have len: "Suc 0 < length (counted (delivered ?r))"
    by (simp add: delivered_def hello_world_run counted_def has_key_def)
  have e0: "map_of (counted (delivered ?r) ! 0) ''end_line'' = Some (PInt 1)"
    by (simp add: delivered_def hello_world_run counted_def has_key_def)
  have ch: "chunks_emitted (final_state ?r) = [''hello'' @ [NL], ''world'' @ [NL]]"
    by (simp add: hello_world_run)
  from line_ranges_partition[of example_lib hello_world True False False]
  have t: "line_chain 0 (counted (delivered ?r)) (start_line (final_state ?r)) \<and>
     (\<forall>i. Suc i < length (counted (delivered ?r)) \<longrightarrow>
        map_of (counted (delivered ?r) ! Suc i) ''start_line'' = map_of (counted (delivered ?r) ! i) ''end_line'') \<and>
     list_all2 span_of (chunks_emitted (final_state ?r)) (counted (delivered ?r)) \<and>
     start_line (final_state ?r) = sum_list (map count_newlines (chunks_emitted (final_state ?r)))"
    by blast
  then have "map_of (counted (delivered ?r) ! Suc 0) ''start_line'' = map_of (counted (delivered ?r) ! 0) ''end_line''"
    using len by blast
  with t len e0 ch show ?thesis by blast
qed

section \<open>Event Stream Decoder: payloads that do not decode\<close>










lemma buffer_show_event [simp]: "buffer (show_event lib ed remainder st1) = remainder"
  by (simp add: show_event_def echo_event_def Let_def split: option.splits pyval.splits)










lemmas payload_eval = decode_payload_def decode_event_data_def failing_lib_def deep_lib_def
  example_lib_def





section \<open>The filesystem: proofs\<close>

lemma walk_errors:
  "walk w cur cs = Inl e \<Longrightarrow>
     e = FileNotFoundError \<or> e = NotADirectoryError \<or>
     e = OSError \<and> (\<exists>c\<in>set cs. name_max w < length c)"
proof (induction cs arbitrary: cur)
  case Nil
  then show ?case by simp
next
  case (Cons c cs)
  show ?case
  proof (cases "node_at w cur")
    case None
    with Cons.prems show ?thesis by simp
  next
    case (Some n)
    show ?thesis
    proof (cases n)
      case Dir
      show ?thesis
      proof (cases "name_max w < length c")
        case True
        with Cons.prems Some Dir show ?thesis by simp
      next
        case False
        with Cons.prems Some Dir have "walk w (step cur c) cs = Inl e" by simp
        from Cons.IH[OF this] show ?thesis by auto
      qed
    qed (use Cons.prems Some in simp_all)
  qed
qed

lemma resolve_errors:
  assumes "resolve w p = Inl e"
  shows "e = FileNotFoundError \<or> e = NotADirectoryError \<or>
         e = ValueError \<and> CHR 0x00 \<in> set p \<or>
         e = OSError \<and> (path_max w \<le> length p \<or> (\<exists>c\<in>set (components p). name_max w < length c))"
proof (cases "CHR 0x00 \<in> set p \<or> p = [] \<or> path_max w \<le> length p")
  case True
  with assms show ?thesis by (auto simp: resolve_def split: if_splits)
next
  case False
  with assms have "walk w (if isabs p then [] else cwd w) (components p) = Inl e"
    by (simp add: resolve_def)
  from walk_errors[OF this] show ?thesis by blast
qed

lemma stat_path_errors:
  assumes "stat_path w p = Inl e"
  shows "e = FileNotFoundError \<or> e = NotADirectoryError \<or>
         e = ValueError \<and> CHR 0x00 \<in> set p \<or>
         e = OSError \<and> (path_max w \<le> length p \<or> (\<exists>c\<in>set (components p). name_max w < length c))"
proof (cases "resolve w p")
  case (Inl e')
  with assms have "e' = e" by (simp add: stat_path_def)
  with resolve_errors[OF Inl] show ?thesis by simp
next
  case (Inr k)
  with assms show ?thesis
    by (auto simp: stat_path_def split: option.splits node.splits if_splits)
qed

lemma path_exists_iff: "path_exists w p \<longleftrightarrow> (\<exists>k n. stat_path w p = Inr (k, n))"
  by (cases "stat_path w p") (auto simp: path_exists_def)

lemma not_path_exists_iff: "\<not> path_exists w p \<longleftrightarrow> (\<exists>e. stat_path w p = Inl e)"
  by (cases "stat_path w p") (auto simp: path_exists_def)

text \<open>A walk that succeeds is the same in every world that keeps the nodes there are.\<close>

lemma walk_key: "walk w cur cs = Inr k \<Longrightarrow> k = foldl step cur cs"
proof (induction cs arbitrary: cur)
  case Nil
  then show ?case by simp
next
  case (Cons c cs)
  then show ?case by (auto split: option.splits node.splits if_splits)
qed

lemma walk_mono:
  assumes "\<And>k n. node_at w k = Some n \<Longrightarrow> node_at w' k = Some n"
      and "name_max w' = name_max w"
  shows "walk w cur cs = Inr k \<Longrightarrow> walk w' cur cs = Inr k"
proof (induction cs arbitrary: cur)
  case Nil
  then show ?case by simp
next
  case (Cons c cs)
  from Cons.prems have d: "node_at w cur = Some Dir" and n: "\<not> name_max w < length c"
    and r: "walk w (step cur c) cs = Inr k"
    by (auto split: option.splits node.splits if_splits)
  from assms(1)[OF d] Cons.IH[OF r] n assms(2) show ?case by simp
qed

lemma resolve_mono:
  assumes "\<And>k n. node_at w k = Some n \<Longrightarrow> node_at w' k = Some n"
      and "name_max w' = name_max w" "path_max w' = path_max w" "cwd w' = cwd w"
  shows "resolve w p = Inr k \<Longrightarrow> resolve w' p = Inr k"
  using walk_mono[OF assms(1,2)] assms(3,4) by (auto simp: resolve_def split: if_splits)

lemma node_at_update:
  "k \<noteq> [] \<Longrightarrow> node_at (w\<lparr>files := AList.update k n (files w)\<rparr>) k' =
     (if k' = k then Some n else node_at w k')"
  by (simp add: node_at_def update_conv')

lemma node_at_delete:
  "k \<noteq> [] \<Longrightarrow> node_at (w\<lparr>files := AList.delete k (files w)\<rparr>) k' =
     (if k' = k then None else node_at w k')"
  by (simp add: node_at_def delete_conv')

lemma node_at_absent_key: "node_at w k = None \<Longrightarrow> k \<noteq> []"
  by (auto simp: node_at_def)

lemma resolve_update_absent:
  assumes "node_at w k = None" "resolve w p = Inr k'"
  shows "resolve (w\<lparr>files := AList.update k n (files w)\<rparr>) p = Inr k'"
proof (rule resolve_mono[OF _ _ _ _ assms(2)])
  fix j m
  assume "node_at w j = Some m"
  with assms(1) have "j \<noteq> k" by auto
  with node_at_absent_key[OF assms(1)]
  show "node_at (w\<lparr>files := AList.update k n (files w)\<rparr>) j = Some m"
    using \<open>node_at w j = Some m\<close> by (simp add: node_at_update)
qed simp_all

text \<open>Resolution looks at the nodes, the working directory and the limits only.\<close>

lemma walk_same:
  "files w' = files w \<Longrightarrow> name_max w' = name_max w \<Longrightarrow> walk w' cur cs = walk w cur cs"
proof (induction cs arbitrary: cur)
  case Nil
  show ?case by simp
next
  case (Cons c cs)
  have n: "node_at w' cur = node_at w cur" using Cons.prems by (simp add: node_at_def)
  show ?case
  proof (cases "node_at w cur")
    case None
    with n show ?thesis by simp
  next
    case (Some m)
    with n Cons.IH[OF Cons.prems] Cons.prems(2) show ?thesis by (cases m) simp_all
  qed
qed

lemma resolve_same:
  "files w' = files w \<Longrightarrow> name_max w' = name_max w \<Longrightarrow> path_max w' = path_max w \<Longrightarrow>
   cwd w' = cwd w \<Longrightarrow> resolve w' p = resolve w p"
  unfolding resolve_def by (simp only: walk_same[of w' w])

lemma stat_path_same:
  "files w' = files w \<Longrightarrow> name_max w' = name_max w \<Longrightarrow> path_max w' = path_max w \<Longrightarrow>
   cwd w' = cwd w \<Longrightarrow> stat_path w' p = stat_path w p"
  unfolding stat_path_def node_at_def by (simp only: resolve_same[of w' w])

section \<open>Rotation and the side channel: proofs\<close>

text \<open>
  C8, as the code has it. A path that does not exist is one for which \<^verbatim>\<open>os.stat\<close> raises
  some \<open>e\<close>: \<^verbatim>\<open>FileNotFoundError\<close>, \<^verbatim>\<open>NotADirectoryError\<close>, \<^verbatim>\<open>ValueError\<close> (only for a path with
  a NUL character) or \<^verbatim>\<open>OSError\<close> (only for a path or component over the limits). On such
  a path \<^verbatim>\<open>cleanup_artifact_dir\<close> returns without touching the filesystem when
  \<^verbatim>\<open>num_keep\<close> is below 1, and raises \<open>e\<close> (from \<^verbatim>\<open>os.listdir\<close>), removing nothing, when
  \<^verbatim>\<open>num_keep\<close> is at least 1; \<^verbatim>\<open>cleanup_folder\<close> changes nothing, returns \<^verbatim>\<open>False\<close> when \<open>e\<close>
  is one of the two exceptions it catches, and raises \<open>e\<close> otherwise.
\<close>

theorem rotation_on_missing_path:
  "\<not> path_exists w path \<longrightarrow>
     (\<exists>e. listdir w path = Inl e \<and>
        (e = FileNotFoundError \<or> e = NotADirectoryError \<or>
         e = ValueError \<and> CHR 0x00 \<in> set path \<or>
         e = OSError \<and> (path_max w \<le> length path \<or>
                        (\<exists>c\<in>set (components path). name_max w < length c))) \<and>
        (num_keep < 1 \<longrightarrow> cleanup_artifact_dir w path num_keep = (None, w)) \<and>
        (1 \<le> num_keep \<longrightarrow> cleanup_artifact_dir w path num_keep = (Some e, w)) \<and>
        cleanup_folder w path =
          (if e = FileNotFoundError \<or> e = NotADirectoryError then Inr (False, w) else Inl (e, w)))"
proof
  assume "\<not> path_exists w path"
  then obtain e where e: "stat_path w path = Inl e" unfolding not_path_exists_iff by blast
  have l: "listdir w path = Inl e" using e by (simp add: listdir_def)
  have a: "num_keep < 1 \<longrightarrow> cleanup_artifact_dir w path num_keep = (None, w)"
    by (simp add: cleanup_artifact_dir_def)
  have b: "1 \<le> num_keep \<longrightarrow> cleanup_artifact_dir w path num_keep = (Some e, w)"
    using l by (simp add: cleanup_artifact_dir_def)
  have c: "cleanup_folder w path =
          (if e = FileNotFoundError \<or> e = NotADirectoryError then Inr (False, w) else Inl (e, w))"
    using e by (simp add: cleanup_folder_def rmtree_def)
  from stat_path_errors[OF e] l a b c
  show "\<exists>e. listdir w path = Inl e \<and>
        (e = FileNotFoundError \<or> e = NotADirectoryError \<or>
         e = ValueError \<and> CHR 0x00 \<in> set path \<or>
         e = OSError \<and> (path_max w \<le> length path \<or>
                        (\<exists>c\<in>set (components path). name_max w < length c))) \<and>
        (num_keep < 1 \<longrightarrow> cleanup_artifact_dir w path num_keep = (None, w)) \<and>
        (1 \<le> num_keep \<longrightarrow> cleanup_artifact_dir w path num_keep = (Some e, w)) \<and>
        cleanup_folder w path =
          (if e = FileNotFoundError \<or> e = NotADirectoryError then Inr (False, w) else Inl (e, w))"
    by blast
qed

lemmas fs_eval = path_exists_def stat_path_def resolve_def node_at_def components_def step_def
  slashed_def isabs_def example_world_def listdir_def rmtree_def cleanup_folder_def
  cleanup_artifact_dir_def

lemma gone_examples:
  "\<not> path_exists (example_world [([''tmp''], Dir)]) ''/gone''"
  "listdir (example_world [([''tmp''], Dir)]) ''/gone'' = Inl FileNotFoundError"
  "listdir (example_world [([''tmp''], Dir), ([''tmp'', ''f''], File ''x'')]) ''/tmp/f/gone'' =
     Inl NotADirectoryError"
  "\<not> path_exists (example_world [([''tmp''], Dir), ([''tmp'', ''f''], File ''x'')]) ''/tmp/f/gone''"
  by (simp_all add: fs_eval)

theorem rotation_on_missing_path_witness:
  "\<not> path_exists (example_world [([''tmp''], Dir)]) ''/gone'' \<and>
   listdir (example_world [([''tmp''], Dir)]) ''/gone'' = Inl FileNotFoundError \<and>
   (0::int) < 1 \<and>
   cleanup_artifact_dir (example_world [([''tmp''], Dir)]) ''/gone'' 0 =
     (None, example_world [([''tmp''], Dir)]) \<and>
   (1::int) \<le> 2 \<and>
   cleanup_artifact_dir (example_world [([''tmp''], Dir)]) ''/gone'' 2 =
     (Some FileNotFoundError, example_world [([''tmp''], Dir)]) \<and>
   cleanup_folder (example_world [([''tmp''], Dir)]) ''/gone'' =
     Inr (False, example_world [([''tmp''], Dir)]) \<and>
   cleanup_artifact_dir (example_world [([''tmp''], Dir), ([''tmp'', ''f''], File ''x'')]) ''/tmp/f/gone'' 2 =
     (Some NotADirectoryError, example_world [([''tmp''], Dir), ([''tmp'', ''f''], File ''x'')])"
proof -
  from rotation_on_missing_path[of "example_world [([''tmp''], Dir)]" "''/gone''" 0]
       rotation_on_missing_path[of "example_world [([''tmp''], Dir)]" "''/gone''" 2]
       rotation_on_missing_path[of "example_world [([''tmp''], Dir), ([''tmp'', ''f''], File ''x'')]" "''/tmp/f/gone''" 2]
       gone_examples
  show ?thesis by auto
qed

text \<open>
  C8 as stated fails: rotation with \<^verbatim>\<open>num_keep = 2\<close> on a missing path raises.
\<close>

theorem rotation_on_missing_path_counterexample:
  "\<not> (\<forall>w path num_keep. \<not> path_exists w path \<and> 1 \<le> num_keep \<longrightarrow>
         (\<exists>w'. cleanup_artifact_dir w path num_keep = (None, w')))"
proof
  assume "\<forall>w path num_keep. \<not> path_exists w path \<and> 1 \<le> num_keep \<longrightarrow>
         (\<exists>w'. cleanup_artifact_dir w path num_keep = (None, w'))"
  then have "\<not> path_exists (example_world [([''tmp''], Dir)]) ''/gone'' \<and> (1::int) \<le> 2 \<longrightarrow>
         (\<exists>w'. cleanup_artifact_dir (example_world [([''tmp''], Dir)]) ''/gone'' 2 = (None, w'))"
    by blast
  then show False by (simp add: fs_eval)
qed

lemma mkfifo_not_type_error: "mkfifo w path \<noteq> Inl TypeError"
proof (cases "resolve w path")
  case (Inl e)
  from resolve_errors[OF Inl] have "e \<noteq> TypeError" by auto
  with Inl show ?thesis by (simp add: mkfifo_def)
next
  case (Inr k)
  then show ?thesis by (auto simp: mkfifo_def split: option.splits)
qed

lemma mkfifo_Inr:
  assumes "mkfifo w path = Inr w1"
  shows "\<exists>k. resolve w path = Inr k \<and> node_at w k = None \<and> \<not> slashed path \<and>
             w1 = w\<lparr>files := AList.update k Fifo (files w)\<rparr> \<and> stat_path w1 path = Inr (k, Fifo)"
proof -
  from assms obtain k where k: "resolve w path = Inr k" "node_at w k = None" "\<not> slashed path"
    and w1: "w1 = w\<lparr>files := AList.update k Fifo (files w)\<rparr>"
    by (auto simp: mkfifo_def split: sum.splits option.splits if_splits)
  have "resolve w1 path = Inr k" unfolding w1 by (rule resolve_update_absent[OF k(2) k(1)])
  moreover have "node_at w1 k = Some Fifo"
    unfolding w1 using node_at_absent_key[OF k(2)] by (simp add: node_at_update)
  ultimately have "stat_path w1 path = Inr (k, Fifo)" using k(3) by (simp add: stat_path_def)
  with k w1 show ?thesis by blast
qed

text \<open>
  C9, as the code has it. The function checks nothing about its data: for data that is
  neither text nor bytes it raises exactly when \<^verbatim>\<open>os.mkfifo\<close> raises, with the exception
  of \<^verbatim>\<open>os.mkfifo\<close>, which is never a type error; and when \<^verbatim>\<open>os.mkfifo\<close> succeeds it returns
  with the pipe made and the background task started with the data unchanged.
\<close>

theorem open_fifo_write_other_data:
  "(\<forall>s. data \<noteq> DStr s) \<and> (\<forall>b. data \<noteq> DBytes b) \<longrightarrow>
     open_fifo_write lib w path data \<noteq> Inl TypeError \<and>
     (\<forall>e. open_fifo_write lib w path data = Inl e \<longleftrightarrow> mkfifo w path = Inl e) \<and>
     (\<forall>w1. mkfifo w path = Inr w1 \<longrightarrow>
        open_fifo_write lib w path data = Inr (w1\<lparr>threads := threads w @ [(path, data)]\<rparr>) \<and>
        (\<exists>k. stat_path (w1\<lparr>threads := threads w @ [(path, data)]\<rparr>) path = Inr (k, Fifo)))"
proof
  assume a: "(\<forall>s. data \<noteq> DStr s) \<and> (\<forall>b. data \<noteq> DBytes b)"
  then have d: "(case data of DStr s \<Rightarrow> DBytes (utf8_encode lib s) | _ \<Rightarrow> data) = data"
    by (cases data) simp_all
  have ok: "open_fifo_write lib w path data = Inr (w1\<lparr>threads := threads w @ [(path, data)]\<rparr>) \<and>
        (\<exists>k. stat_path (w1\<lparr>threads := threads w @ [(path, data)]\<rparr>) path = Inr (k, Fifo))"
    if m: "mkfifo w path = Inr w1" for w1
  proof -
    from mkfifo_Inr[OF m] obtain k where k: "w1 = w\<lparr>files := AList.update k Fifo (files w)\<rparr>"
      "stat_path w1 path = Inr (k, Fifo)" by blast
    have t: "threads w1 = threads w" unfolding k(1) by simp
    have "stat_path (w1\<lparr>threads := threads w @ [(path, data)]\<rparr>) path = stat_path w1 path"
      by (rule stat_path_same) simp_all
    with k(2) m d t show ?thesis by (auto simp: open_fifo_write_def Let_def)
  qed
  have err: "open_fifo_write lib w path data = Inl e \<longleftrightarrow> mkfifo w path = Inl e" for e
    by (cases "mkfifo w path") (simp_all add: open_fifo_write_def Let_def)
  have nt: "open_fifo_write lib w path data \<noteq> Inl TypeError"
    using err[of TypeError] mkfifo_not_type_error[of w path] by simp
  from nt err ok
  show "open_fifo_write lib w path data \<noteq> Inl TypeError \<and>
     (\<forall>e. open_fifo_write lib w path data = Inl e \<longleftrightarrow> mkfifo w path = Inl e) \<and>
     (\<forall>w1. mkfifo w path = Inr w1 \<longrightarrow>
        open_fifo_write lib w path data = Inr (w1\<lparr>threads := threads w @ [(path, data)]\<rparr>) \<and>
        (\<exists>k. stat_path (w1\<lparr>threads := threads w @ [(path, data)]\<rparr>) path = Inr (k, Fifo)))"
    by blast
qed

lemma fifo_example:
  "mkfifo (example_world [([''tmp''], Dir)]) ''/tmp/fifo'' =
     Inr ((example_world [([''tmp''], Dir)])\<lparr>files := [([''tmp''], Dir), ([''tmp'', ''fifo''], Fifo)]\<rparr>)"
  by (simp add: mkfifo_def fs_eval)

theorem open_fifo_write_other_data_witness:
  "(\<forall>s. DObject 0 \<noteq> DStr s) \<and> (\<forall>b. DObject 0 \<noteq> DBytes b) \<and>
   mkfifo (example_world [([''tmp''], Dir)]) ''/tmp/fifo'' =
     Inr ((example_world [([''tmp''], Dir)])\<lparr>files := [([''tmp''], Dir), ([''tmp'', ''fifo''], Fifo)]\<rparr>) \<and>
   open_fifo_write example_lib (example_world [([''tmp''], Dir)]) ''/tmp/fifo'' (DObject 0) =
     Inr ((example_world [([''tmp''], Dir)])\<lparr>files := [([''tmp''], Dir), ([''tmp'', ''fifo''], Fifo)],
            threads := [(''/tmp/fifo'', DObject 0)]\<rparr>) \<and>
   open_fifo_write example_lib (example_world [([''tmp''], Dir)]) ''/tmp/fifo'' (DObject 0) \<noteq> Inl TypeError"
proof -
  have t: "threads (example_world [([''tmp''], Dir)]) = []" by (simp add: example_world_def)
  from open_fifo_write_other_data[of "DObject 0" example_lib "example_world [([''tmp''], Dir)]" "''/tmp/fifo''"]
    fifo_example t
  show ?thesis by simp
qed

text \<open>
  C9 as stated fails: given an object that is neither text nor bytes, the call returns
  with the task started.
\<close>

theorem open_fifo_write_type_error_counterexample:
  "\<not> (\<forall>lib w path data. (\<forall>s. data \<noteq> DStr s) \<and> (\<forall>b. data \<noteq> DBytes b) \<longrightarrow>
         open_fifo_write lib w path data = Inl TypeError)"
proof
  assume "\<forall>lib w path data. (\<forall>s. data \<noteq> DStr s) \<and> (\<forall>b. data \<noteq> DBytes b) \<longrightarrow>
         open_fifo_write lib w path data = Inl TypeError"
  then have "(\<forall>s. DObject 0 \<noteq> DStr s) \<and> (\<forall>b. DObject 0 \<noteq> DBytes b) \<longrightarrow>
     open_fifo_write example_lib (example_world [([''tmp''], Dir)]) ''/tmp/fifo'' (DObject 0) = Inl TypeError"
    by blast
  then show False by (simp add: open_fifo_write_def fifo_example)
qed

section \<open>Artifact Store: \<^verbatim>\<open>dump_artifact\<close>, proofs\<close>

lemma universal_newlines_id: "CR \<notin> set s \<Longrightarrow> universal_newlines s = s"
  by (induction s rule: universal_newlines.induct) auto

lemma resolve_key: "resolve w p = Inr k \<Longrightarrow> k = key_of w p"
  by (auto simp: resolve_def key_of_def split: if_splits dest: walk_key)

lemma key_of_same: "cwd w' = cwd w \<Longrightarrow> key_of w' p = key_of w p"
  by (simp add: key_of_def)

text \<open>A resolution that succeeds goes through directories only.\<close>

lemma walk_dirs_mono:
  assumes "\<And>j. node_at w j = Some Dir \<Longrightarrow> node_at w' j = Some Dir"
      and "name_max w' = name_max w"
  shows "walk w cur cs = Inr k \<Longrightarrow> walk w' cur cs = Inr k"
proof (induction cs arbitrary: cur)
  case Nil
  then show ?case by simp
next
  case (Cons c cs)
  from Cons.prems have d: "node_at w cur = Some Dir" and n: "\<not> name_max w < length c"
    and r: "walk w (step cur c) cs = Inr k"
    by (auto split: option.splits node.splits if_splits)
  from assms(1)[OF d] Cons.IH[OF r] n assms(2) show ?case by simp
qed

lemma resolve_dirs_mono:
  assumes "\<And>j. node_at w j = Some Dir \<Longrightarrow> node_at w' j = Some Dir"
      and "name_max w' = name_max w" "path_max w' = path_max w" "cwd w' = cwd w"
  shows "resolve w p = Inr k \<Longrightarrow> resolve w' p = Inr k"
  using walk_dirs_mono[OF assms(1,2)] assms(3,4) by (auto simp: resolve_def split: if_splits)

lemma open_creat_Inr:
  assumes "open_creat w p = Inr w1"
  shows "file_writes w1 = file_writes w"
    and "cwd w1 = cwd w" "name_max w1 = name_max w" "path_max w1 = path_max w"
    and "resolve w p = Inr (key_of w p)"
    and "\<And>j. j \<noteq> key_of w p \<Longrightarrow> node_at w1 j = node_at w j"
    and "node_at w1 (key_of w p) \<noteq> None" "node_at w1 (key_of w p) \<noteq> Some Dir"
    and "node_at w (key_of w p) \<noteq> Some Dir"
proof -
  from assms obtain k where r: "resolve w p = Inr k"
    by (cases "resolve w p") (simp_all add: open_creat_def)
  have k: "k = key_of w p" by (rule resolve_key[OF r])
  from assms r have c: "w1 = w \<and> node_at w k \<noteq> None \<and> node_at w k \<noteq> Some Dir \<or>
      node_at w k = None \<and> w1 = w\<lparr>files := AList.update k (File []) (files w)\<rparr>"
    by (auto simp: open_creat_def split: option.splits node.splits if_splits)
  show "resolve w p = Inr (key_of w p)" using r k by simp
  from c show "file_writes w1 = file_writes w" "cwd w1 = cwd w" "name_max w1 = name_max w"
    "path_max w1 = path_max w" by auto
  from c show "node_at w (key_of w p) \<noteq> Some Dir" unfolding k[symmetric] by auto
  from c show "node_at w1 (key_of w p) \<noteq> None" "node_at w1 (key_of w p) \<noteq> Some Dir"
    unfolding k[symmetric] by (auto simp: node_at_update dest: node_at_absent_key)
  show "node_at w1 j = node_at w j" if "j \<noteq> key_of w p" for j
    using c that unfolding k[symmetric] by (auto simp: node_at_update dest: node_at_absent_key)
qed

lemma write_text_Inr:
  assumes "write_text w fn obj = Inr w1"
  shows "resolve w fn = Inr (key_of w fn)" and "\<not> slashed fn"
    and "node_at w (key_of w fn) \<noteq> Some Dir" and "key_of w fn \<noteq> []"
    and "w1 = w\<lparr>files := AList.update (key_of w fn) (File obj) (files w),
                file_writes := file_writes w @ [(fn, obj)]\<rparr>"
proof -
  from assms obtain k where r: "resolve w fn = Inr k"
    by (cases "resolve w fn") (simp_all add: write_text_def)
  have k: "k = key_of w fn" by (rule resolve_key[OF r])
  show "resolve w fn = Inr (key_of w fn)" using r k by simp
  from assms r show "\<not> slashed fn" "node_at w (key_of w fn) \<noteq> Some Dir"
    and "w1 = w\<lparr>files := AList.update (key_of w fn) (File obj) (files w),
                file_writes := file_writes w @ [(fn, obj)]\<rparr>"
    unfolding k[symmetric]
    by (auto simp: write_text_def split: option.splits node.splits if_splits)
  then show "key_of w fn \<noteq> []" by (auto simp: node_at_def)
qed

lemma remove_Inr:
  assumes "remove w p = Inr w1"
  shows "resolve w p = Inr (key_of w p)" and "key_of w p \<noteq> []"
    and "node_at w (key_of w p) \<noteq> Some Dir"
    and "w1 = w\<lparr>files := AList.delete (key_of w p) (files w)\<rparr>"
proof -
  from assms obtain k where r: "resolve w p = Inr k"
    by (cases "resolve w p") (simp_all add: remove_def)
  have k: "k = key_of w p" by (rule resolve_key[OF r])
  show "resolve w p = Inr (key_of w p)" using r k by simp
  from assms r show "node_at w (key_of w p) \<noteq> Some Dir"
    and "w1 = w\<lparr>files := AList.delete (key_of w p) (files w)\<rparr>"
    unfolding k[symmetric]
    by (auto simp: remove_def split: option.splits node.splits if_splits)
  then show "key_of w p \<noteq> []" by (auto simp: node_at_def)
qed

lemma locked_write_Inr:
  assumes "locked_write w path fn obj = Inr w1"
  shows "file_writes w1 = file_writes w @ [(fn, obj)]"
    and "cwd w1 = cwd w" "name_max w1 = name_max w" "path_max w1 = path_max w"
    and "key_of w fn \<noteq> key_of w (path_join path lock_name) \<Longrightarrow>
           stat_path w1 fn = Inr (key_of w fn, File obj)"
    and "\<And>j. j \<noteq> key_of w fn \<Longrightarrow> j \<noteq> key_of w (path_join path lock_name) \<Longrightarrow>
           node_at w1 j = node_at w j"
    and "node_at w1 (key_of w (path_join path lock_name)) = None"
    and "node_at w (key_of w fn) \<noteq> Some Dir"
    and "node_at w (key_of w (path_join path lock_name)) \<noteq> Some Dir"
proof -
  let ?l = "path_join path lock_name"
  let ?kl = "key_of w ?l"
  let ?kf = "key_of w fn"
  from assms obtain wa wb where a: "open_creat w ?l = Inr wa" and b: "write_text wa fn obj = Inr wb"
      and c: "remove wb ?l = Inr w1"
    by (auto simp: locked_write_def Let_def split: sum.splits)
  note A = open_creat_Inr[OF a] and B = write_text_Inr[OF b] and C = remove_Inr[OF c]
  have ka: "key_of wa p = key_of w p" for p by (rule key_of_same[OF A(2)])
  have cb: "cwd wb = cwd w" "name_max wb = name_max wa" "path_max wb = path_max wa"
    unfolding B(5) using A(2) by simp_all
  have kb: "key_of wb p = key_of w p" for p by (rule key_of_same[OF cb(1)])
  have kl0: "?kl \<noteq> []" using C(2) unfolding kb .
  have kf0: "?kf \<noteq> []" using B(4) unfolding ka .
  have nb: "node_at wb j = (if j = ?kf then Some (File obj) else node_at wa j)" for j
    unfolding B(5) ka using kf0 by (simp add: node_at_def update_conv')
  have n1: "node_at w1 j = (if j = ?kl then None else node_at wb j)" for j
    unfolding C(4) kb using kl0 by (simp add: node_at_def delete_conv')
  show "file_writes w1 = file_writes w @ [(fn, obj)]"
    unfolding C(4) B(5) using A(1) by simp
  show "cwd w1 = cwd w" "name_max w1 = name_max w" "path_max w1 = path_max w"
    unfolding C(4) B(5) using A(2,3,4) by simp_all
  show "node_at w1 ?kl = None" by (simp add: n1)
  show "node_at w1 j = node_at w j" if "j \<noteq> ?kf" "j \<noteq> ?kl" for j
    using that A(6)[of j] by (simp add: n1 nb)
  show "node_at w ?kl \<noteq> Some Dir" by (rule A(9))
  show kfd: "node_at w ?kf \<noteq> Some Dir"
  proof (cases "?kf = ?kl")
    case True
    with A(9) show ?thesis by simp
  next
    case False
    with A(6)[of ?kf] B(3) show ?thesis unfolding ka by simp
  qed
  show "stat_path w1 fn = Inr (?kf, File obj)" if ne: "?kf \<noteq> ?kl"
  proof -
    have r: "resolve wa fn = Inr ?kf" using B(1) unfolding ka .
    have "resolve wb fn = Inr ?kf"
    proof (rule resolve_dirs_mono[OF _ _ _ _ r])
      fix j assume "node_at wa j = Some Dir"
      with B(3) show "node_at wb j = Some Dir" unfolding ka by (auto simp: nb)
    qed (simp_all add: cb A(2))
    then have "resolve w1 fn = Inr ?kf"
    proof (rule resolve_dirs_mono[rotated 4])
      fix j assume d: "node_at wb j = Some Dir"
      with C(3) have "j \<noteq> ?kl" unfolding kb by auto
      with d show "node_at w1 j = Some Dir" by (simp add: n1)
    qed (simp_all add: C(4))
    moreover have "node_at w1 ?kf = Some (File obj)" using ne by (simp add: n1 nb)
    ultimately show ?thesis using B(2) by (simp add: stat_path_def)
  qed
qed

lemma mkdir_Inr:
  assumes "mkdir w n = Inr w1"
  shows "file_writes w1 = file_writes w"
    and "cwd w1 = cwd w" "name_max w1 = name_max w" "path_max w1 = path_max w"
    and "resolve w n = Inr (key_of w n)" and "node_at w (key_of w n) = None"
    and "w1 = w\<lparr>files := AList.update (key_of w n) Dir (files w)\<rparr>"
proof -
  from assms obtain k where r: "resolve w n = Inr k"
    by (cases "resolve w n") (simp_all add: mkdir_def)
  have k: "k = key_of w n" by (rule resolve_key[OF r])
  show "resolve w n = Inr (key_of w n)" using r k by simp
  from assms r show "node_at w (key_of w n) = None"
    and w1: "w1 = w\<lparr>files := AList.update (key_of w n) Dir (files w)\<rparr>"
    unfolding k[symmetric] by (auto simp: mkdir_def split: option.splits)
  show "file_writes w1 = file_writes w" "cwd w1 = cwd w" "name_max w1 = name_max w"
    "path_max w1 = path_max w" unfolding w1 by simp_all
qed

lemma makedirs_fields:
  "makedirs w name = Inr w1 \<Longrightarrow>
     file_writes w1 = file_writes w \<and> cwd w1 = cwd w \<and> name_max w1 = name_max w \<and>
     path_max w1 = path_max w"
proof (induction w name arbitrary: w1 rule: makedirs.induct)
  case (1 w name)
  define ht where "ht = (if snd (path_split name) = [] then path_split (fst (path_split name))
                else path_split name)"
  define above where "above = (fst ht \<noteq> [] \<and> snd ht \<noteq> [] \<and> \<not> path_exists w (fst ht))"
  define up where "up = (if above
                then (case makedirs w (fst ht) of Inl e \<Rightarrow> if e = FileExistsError then Inr w else Inl e
                      | Inr w1 \<Rightarrow> Inr w1)
                else Inr w)"
  have eq: "makedirs w name = (case up of Inl e \<Rightarrow> Inl e
          | Inr w1 \<Rightarrow> if above \<and> snd ht = ''.'' then Inr w1 else mkdir w1 name)"
    unfolding up_def above_def ht_def
    by (subst makedirs.simps) (simp only: Let_def)
  from "1.prems" eq obtain wa where up: "up = Inr wa"
    and fin: "(if above \<and> snd ht = ''.'' then Inr wa else mkdir wa name) = Inr w1"
    by (cases up) auto
  have wa: "file_writes wa = file_writes w \<and> cwd wa = cwd w \<and> name_max wa = name_max w \<and>
     path_max wa = path_max w"
  proof (cases above)
    case False
    with up show ?thesis by (simp add: up_def)
  next
    case True
    show ?thesis
    proof (cases "makedirs w (fst ht)")
      case (Inl e)
      with True up show ?thesis by (simp add: up_def split: if_splits)
    next
      case (Inr wb)
      with True up have "wb = wa" by (simp add: up_def)
      with "1.IH"[OF ht_def above_def True Inr] show ?thesis by simp
    qed
  qed
  from fin have "file_writes w1 = file_writes wa \<and> cwd w1 = cwd wa \<and> name_max w1 = name_max wa \<and>
     path_max w1 = path_max wa"
    by (auto split: if_splits dest: mkdir_Inr(1,2,3,4))
  with wa show ?case by simp
qed

lemma makedirs_file_writes:
  "makedirs w name = Inr w1 \<Longrightarrow> file_writes w1 = file_writes w"
  by (drule makedirs_fields) simp

lemma dump_artifact_existing_dir:
  "path_exists w path \<Longrightarrow> dump_artifact lib w obj path (Some f) =
     (if path_exists w (path_join path f) then
        (case read_text w (path_join path f) of Inl e \<Rightarrow> Inl e
         | Inr c \<Rightarrow> if sha1_hex lib obj \<noteq> sha1_hex lib c
                   then (case locked_write w path (path_join path f) obj of
                           Inl e \<Rightarrow> Inl e | Inr w3 \<Rightarrow> Inr (path_join path f, w3))
                   else Inr (path_join path f, w))
      else (case locked_write w path (path_join path f) obj of
              Inl e \<Rightarrow> Inl e | Inr w3 \<Rightarrow> Inr (path_join path f, w3)))"
  by (simp add: dump_artifact_def split: sum.splits)

lemma dump_artifact_missing_dir:
  "\<not> path_exists w path \<Longrightarrow> dump_artifact lib w obj path (Some f) =
     (case makedirs w path of Inl e \<Rightarrow> Inl e
      | Inr w0 \<Rightarrow>
        (if path_exists w0 (path_join path f) then
          (case read_text w0 (path_join path f) of Inl e \<Rightarrow> Inl e
           | Inr c \<Rightarrow> if sha1_hex lib obj \<noteq> sha1_hex lib c
                   then (case locked_write w0 path (path_join path f) obj of
                           Inl e \<Rightarrow> Inl e | Inr w3 \<Rightarrow> Inr (path_join path f, w3))
                   else Inr (path_join path f, w0))
         else (case locked_write w0 path (path_join path f) obj of
              Inl e \<Rightarrow> Inl e | Inr w3 \<Rightarrow> Inr (path_join path f, w3))))"
  by (simp add: dump_artifact_def split: sum.splits)

text \<open>
  What a successful call leaves: the target path, and either a logged write of the content
  or a target that already held content of the same digest.
\<close>

lemma dump_artifact_outcome:
  assumes "dump_artifact lib w obj path (Some f) = Inr (fn, w1)"
  shows "fn = path_join path f"
    and "\<exists>w0. file_writes w0 = file_writes w \<and> (path_exists w path \<longrightarrow> w0 = w) \<and> cwd w0 = cwd w \<and>
          (locked_write w0 path fn obj = Inr w1 \<and>
             (\<not> path_exists w0 fn \<or> (\<exists>c. read_text w0 fn = Inr c \<and> sha1_hex lib c \<noteq> sha1_hex lib obj))
           \<or> w1 = w0 \<and> path_exists w0 fn \<and>
             (\<exists>c. read_text w0 fn = Inr c \<and> sha1_hex lib c = sha1_hex lib obj))"
proof -
  have body: "fn = path_join path f \<and>
          (locked_write w0 path fn obj = Inr w1 \<and>
             (\<not> path_exists w0 fn \<or> (\<exists>c. read_text w0 fn = Inr c \<and> sha1_hex lib c \<noteq> sha1_hex lib obj))
           \<or> w1 = w0 \<and> path_exists w0 fn \<and>
             (\<exists>c. read_text w0 fn = Inr c \<and> sha1_hex lib c = sha1_hex lib obj))"
    if "(if path_exists w0 (path_join path f) then
          (case read_text w0 (path_join path f) of Inl e \<Rightarrow> Inl e
           | Inr c \<Rightarrow> if sha1_hex lib obj \<noteq> sha1_hex lib c
                   then (case locked_write w0 path (path_join path f) obj of
                           Inl e \<Rightarrow> Inl e | Inr w3 \<Rightarrow> Inr (path_join path f, w3))
                   else Inr (path_join path f, w0))
         else (case locked_write w0 path (path_join path f) obj of
              Inl e \<Rightarrow> Inl e | Inr w3 \<Rightarrow> Inr (path_join path f, w3))) = Inr (fn, w1)" for w0
    using that by (auto split: if_splits sum.splits)
  show "fn = path_join path f" and "\<exists>w0. file_writes w0 = file_writes w \<and> (path_exists w path \<longrightarrow> w0 = w) \<and> cwd w0 = cwd w \<and>
          (locked_write w0 path fn obj = Inr w1 \<and>
             (\<not> path_exists w0 fn \<or> (\<exists>c. read_text w0 fn = Inr c \<and> sha1_hex lib c \<noteq> sha1_hex lib obj))
           \<or> w1 = w0 \<and> path_exists w0 fn \<and>
             (\<exists>c. read_text w0 fn = Inr c \<and> sha1_hex lib c = sha1_hex lib obj))"
  proof -
    show "fn = path_join path f"
    proof (cases "path_exists w path")
      case True
      from assms body[of w] show ?thesis unfolding dump_artifact_existing_dir[OF True] by blast
    next
      case False
      from assms obtain w0 where m: "makedirs w path = Inr w0"
        unfolding dump_artifact_missing_dir[OF False] by (cases "makedirs w path") auto
      from assms body[of w0] show ?thesis unfolding dump_artifact_missing_dir[OF False] m sum.case by blast
    qed
    show "\<exists>w0. file_writes w0 = file_writes w \<and> (path_exists w path \<longrightarrow> w0 = w) \<and> cwd w0 = cwd w \<and>
          (locked_write w0 path fn obj = Inr w1 \<and>
             (\<not> path_exists w0 fn \<or> (\<exists>c. read_text w0 fn = Inr c \<and> sha1_hex lib c \<noteq> sha1_hex lib obj))
           \<or> w1 = w0 \<and> path_exists w0 fn \<and>
             (\<exists>c. read_text w0 fn = Inr c \<and> sha1_hex lib c = sha1_hex lib obj))"
    proof (cases "path_exists w path")
      case True
      from assms body[of w] have "locked_write w path fn obj = Inr w1 \<and>
             (\<not> path_exists w fn \<or> (\<exists>c. read_text w fn = Inr c \<and> sha1_hex lib c \<noteq> sha1_hex lib obj))
           \<or> w1 = w \<and> path_exists w fn \<and>
             (\<exists>c. read_text w fn = Inr c \<and> sha1_hex lib c = sha1_hex lib obj)"
        unfolding dump_artifact_existing_dir[OF True] by blast
      then show ?thesis by (intro exI[of _ w]) simp
    next
      case False
      from assms obtain w0 where m: "makedirs w path = Inr w0"
        unfolding dump_artifact_missing_dir[OF False] by (cases "makedirs w path") auto
      from assms body[of w0] have "locked_write w0 path fn obj = Inr w1 \<and>
             (\<not> path_exists w0 fn \<or> (\<exists>c. read_text w0 fn = Inr c \<and> sha1_hex lib c \<noteq> sha1_hex lib obj))
           \<or> w1 = w0 \<and> path_exists w0 fn \<and>
             (\<exists>c. read_text w0 fn = Inr c \<and> sha1_hex lib c = sha1_hex lib obj)"
        unfolding dump_artifact_missing_dir[OF False] m sum.case by blast
      with makedirs_fields[OF m] False show ?thesis by (intro exI[of _ w0]) simp
    qed
  qed
qed

text \<open>
  C5, as the code has it. For a target that is not the lock file of the directory
  (whatever the spelling of its path) and content with no carriage return: after a first
  call that succeeds (leaving the directory in place), a second call with the same
  content and name changes nothing, performs no write and returns the same path; the
  first call wrote at most once, and exactly once when the directory existed and the
  target was absent or held content of another digest; a later successful call whose
  content has a different digest writes the new content to the target.
\<close>

theorem dump_artifact_idempotent:
  assumes first: "dump_artifact lib w obj path (Some filename) = Inr (fn, w1)"
      and dir: "path_exists w1 path"
      and nocr: "CR \<notin> set obj"
      and nolock: "key_of w (path_join path filename) \<noteq> key_of w (path_join path lock_name)"
  shows "fn = path_join path filename \<and>
         dump_artifact lib w1 obj path (Some filename) = Inr (fn, w1) \<and>
         (file_writes w1 = file_writes w \<or> file_writes w1 = file_writes w @ [(fn, obj)]) \<and>
         (path_exists w path \<and>
            (\<not> path_exists w fn \<or> (\<exists>c. read_text w fn = Inr c \<and> sha1_hex lib c \<noteq> sha1_hex lib obj))
          \<longrightarrow> file_writes w1 = file_writes w @ [(fn, obj)]) \<and>
         (\<forall>obj' fn' w2.
            sha1_hex lib obj' \<noteq> sha1_hex lib obj \<and>
            dump_artifact lib w1 obj' path (Some filename) = Inr (fn', w2)
            \<longrightarrow> fn' = fn \<and> read_raw w2 fn = Inr obj' \<and>
                file_writes w2 = file_writes w1 @ [(fn, obj')])"
proof -
  note o = dump_artifact_outcome[OF first]
  have fn: "fn = path_join path filename" by (rule o(1))
  from o(2) obtain w0 where fw: "file_writes w0 = file_writes w" and same: "path_exists w path \<longrightarrow> w0 = w"
    and c0: "cwd w0 = cwd w"
    and br: "locked_write w0 path fn obj = Inr w1 \<and>
             (\<not> path_exists w0 fn \<or> (\<exists>c. read_text w0 fn = Inr c \<and> sha1_hex lib c \<noteq> sha1_hex lib obj))
           \<or> w1 = w0 \<and> path_exists w0 fn \<and>
             (\<exists>c. read_text w0 fn = Inr c \<and> sha1_hex lib c = sha1_hex lib obj)"
    by blast
  have k0: "key_of w0 p = key_of w p" for p by (rule key_of_same[OF c0])
  have nl0: "key_of w0 fn \<noteq> key_of w0 (path_join path lock_name)" using nolock fn by (simp add: k0)
  have held: "path_exists w1 fn \<and> (\<exists>c. read_text w1 fn = Inr c \<and> sha1_hex lib c = sha1_hex lib obj)"
  proof (cases "locked_write w0 path fn obj = Inr w1")
    case True
    from locked_write_Inr(5)[OF True nl0] have "stat_path w1 fn = Inr (key_of w0 fn, File obj)" .
    then show ?thesis
      by (simp add: path_exists_def read_text_def read_raw_def universal_newlines_id[OF nocr])
  next
    case False
    with br show ?thesis by blast
  qed
  then obtain c where ex: "path_exists w1 fn" and rd: "read_text w1 fn = Inr c"
    and dg: "sha1_hex lib c = sha1_hex lib obj"
    by blast
  have c1: "cwd w1 = cwd w"
  proof (cases "locked_write w0 path fn obj = Inr w1")
    case True
    from locked_write_Inr(2)[OF True] c0 show ?thesis by simp
  next
    case False
    with br c0 show ?thesis by auto
  qed
  have k1: "key_of w1 p = key_of w p" for p by (rule key_of_same[OF c1])
  have nl1: "key_of w1 fn \<noteq> key_of w1 (path_join path lock_name)" using nolock fn by (simp add: k1)
  have second: "dump_artifact lib w1 obj path (Some filename) = Inr (fn, w1)"
    unfolding dump_artifact_existing_dir[OF dir] using ex rd dg fn by simp
  have writes: "file_writes w1 = file_writes w \<or> file_writes w1 = file_writes w @ [(fn, obj)]"
  proof (cases "locked_write w0 path fn obj = Inr w1")
    case True
    from locked_write_Inr(1)[OF True] fw show ?thesis by simp
  next
    case False
    with br fw show ?thesis by auto
  qed
  have once: "file_writes w1 = file_writes w @ [(fn, obj)]"
    if p: "path_exists w path \<and>
            (\<not> path_exists w fn \<or> (\<exists>c. read_text w fn = Inr c \<and> sha1_hex lib c \<noteq> sha1_hex lib obj))"
  proof -
    from p same have w0: "w0 = w" by simp
    from p br have "locked_write w0 path fn obj = Inr w1" unfolding w0 by auto
    from locked_write_Inr(1)[OF this] fw show ?thesis by simp
  qed
  have third: "fn' = fn \<and> read_raw w2 fn = Inr obj' \<and> file_writes w2 = file_writes w1 @ [(fn, obj')]"
    if t: "sha1_hex lib obj' \<noteq> sha1_hex lib obj \<and>
            dump_artifact lib w1 obj' path (Some filename) = Inr (fn', w2)" for obj' fn' w2
  proof -
    from t have d: "sha1_hex lib obj' \<noteq> sha1_hex lib c" using dg by simp
    from t have "(case locked_write w1 path (path_join path filename) obj' of Inl e \<Rightarrow> Inl e
                  | Inr w3 \<Rightarrow> Inr (path_join path filename, w3)) = Inr (fn', w2)"
      unfolding dump_artifact_existing_dir[OF dir] using ex rd d unfolding fn by simp
    then have f: "fn' = fn" and l: "locked_write w1 path fn obj' = Inr w2"
      unfolding fn by (auto split: sum.splits)
    from locked_write_Inr(5)[OF l nl1] have "read_raw w2 fn = Inr obj'"
      by (simp add: read_raw_def)
    with locked_write_Inr(1)[OF l] f show ?thesis by simp
  qed
  from fn second writes once third show ?thesis by blast
qed

lemmas dump_eval = dump_artifact_def locked_write_def open_creat_def write_text_def remove_def
  read_text_def read_raw_def path_exists_def stat_path_def resolve_def node_at_def
  components_def step_def slashed_def isabs_def key_of_def
  path_join_def lock_name_def example_world_def example_lib_def Let_def CR_def NL_def

lemma dump_example_first:
  "dump_artifact example_lib (example_world [([''d''], Dir)]) ''x'' ''/d'' (Some ''f'') =
     Inr (''/d/f'', (example_world [([''d''], Dir), ([''d'', ''f''], File ''x'')])\<lparr>file_writes := [(''/d/f'', ''x'')]\<rparr>)"
  by (simp add: dump_eval)

lemma dump_example_third:
  "dump_artifact example_lib ((example_world [([''d''], Dir), ([''d'', ''f''], File ''x'')])\<lparr>file_writes := [(''/d/f'', ''x'')]\<rparr>)
      ''y'' ''/d'' (Some ''f'') =
     Inr (''/d/f'', (example_world [([''d''], Dir), ([''d'', ''f''], File ''y'')])\<lparr>file_writes := [(''/d/f'', ''x''), (''/d/f'', ''y'')]\<rparr>)"
  by (simp add: dump_eval)

lemma dump_example_lock_first:
  "dump_artifact example_lib (example_world [([''d''], Dir)]) ''x'' ''/d'' (Some lock_name) =
     Inr (''/d/.artifact_write_lock'', (example_world [([''d''], Dir)])\<lparr>file_writes := [(''/d/.artifact_write_lock'', ''x'')]\<rparr>)"
  by (simp add: dump_eval)

lemma dump_example_lock_second:
  "dump_artifact example_lib ((example_world [([''d''], Dir)])\<lparr>file_writes := [(''/d/.artifact_write_lock'', ''x'')]\<rparr>)
      ''x'' ''/d'' (Some lock_name) =
     Inr (''/d/.artifact_write_lock'', (example_world [([''d''], Dir)])\<lparr>file_writes :=
        [(''/d/.artifact_write_lock'', ''x''), (''/d/.artifact_write_lock'', ''x'')]\<rparr>)"
  by (simp add: dump_eval)

lemma dump_example_cr_first:
  "dump_artifact example_lib (example_world [([''d''], Dir)]) [CHR ''a'', CR] ''/d'' (Some ''f'') =
     Inr (''/d/f'', (example_world [([''d''], Dir), ([''d'', ''f''], File [CHR ''a'', CR])])\<lparr>file_writes := [(''/d/f'', [CHR ''a'', CR])]\<rparr>)"
  by (simp add: dump_eval)

lemma dump_example_cr_second:
  "dump_artifact example_lib ((example_world [([''d''], Dir), ([''d'', ''f''], File [CHR ''a'', CR])])\<lparr>file_writes := [(''/d/f'', [CHR ''a'', CR])]\<rparr>)
     [CHR ''a'', CR] ''/d'' (Some ''f'') =
     Inr (''/d/f'', (example_world [([''d''], Dir), ([''d'', ''f''], File [CHR ''a'', CR])])\<lparr>file_writes :=
        [(''/d/f'', [CHR ''a'', CR]), (''/d/f'', [CHR ''a'', CR])]\<rparr>)"
  by (simp add: dump_eval)

theorem dump_artifact_idempotent_witness:
  "dump_artifact example_lib (example_world [([''d''], Dir)]) ''x'' ''/d'' (Some ''f'') =
     Inr (''/d/f'', (example_world [([''d''], Dir), ([''d'', ''f''], File ''x'')])\<lparr>file_writes := [(''/d/f'', ''x'')]\<rparr>) \<and>
   path_exists ((example_world [([''d''], Dir), ([''d'', ''f''], File ''x'')])\<lparr>file_writes := [(''/d/f'', ''x'')]\<rparr>) ''/d'' \<and>
   CR \<notin> set ''x'' \<and>
   key_of (example_world [([''d''], Dir)]) (path_join ''/d'' ''f'') \<noteq>
     key_of (example_world [([''d''], Dir)]) (path_join ''/d'' lock_name) \<and>
   path_exists (example_world [([''d''], Dir)]) ''/d'' \<and>
   \<not> path_exists (example_world [([''d''], Dir)]) ''/d/f'' \<and>
   dump_artifact example_lib ((example_world [([''d''], Dir), ([''d'', ''f''], File ''x'')])\<lparr>file_writes := [(''/d/f'', ''x'')]\<rparr>)
      ''x'' ''/d'' (Some ''f'') =
     Inr (''/d/f'', (example_world [([''d''], Dir), ([''d'', ''f''], File ''x'')])\<lparr>file_writes := [(''/d/f'', ''x'')]\<rparr>) \<and>
   file_writes ((example_world [([''d''], Dir), ([''d'', ''f''], File ''x'')])\<lparr>file_writes := [(''/d/f'', ''x'')]\<rparr>) =
     file_writes (example_world [([''d''], Dir)]) @ [(''/d/f'', ''x'')] \<and>
   sha1_hex example_lib ''y'' \<noteq> sha1_hex example_lib ''x'' \<and>
   read_raw ((example_world [([''d''], Dir), ([''d'', ''f''], File ''y'')])\<lparr>file_writes := [(''/d/f'', ''x''), (''/d/f'', ''y'')]\<rparr>) ''/d/f'' =
     Inr ''y''"
proof -
  let ?w = "example_world [([''d''], Dir)]"
  let ?w1 = "(example_world [([''d''], Dir), ([''d'', ''f''], File ''x'')])\<lparr>file_writes := [(''/d/f'', ''x'')]\<rparr>"
  let ?w2 = "(example_world [([''d''], Dir), ([''d'', ''f''], File ''y'')])\<lparr>file_writes := [(''/d/f'', ''x''), (''/d/f'', ''y'')]\<rparr>"
  have h1: "path_exists ?w1 ''/d''" by (simp add: dump_eval)
  have h2: "CR \<notin> set ''x''" by (simp add: CR_def)
  have h3: "key_of ?w (path_join ''/d'' ''f'') \<noteq> key_of ?w (path_join ''/d'' lock_name)"
    by (simp add: dump_eval)
  have h4: "path_exists ?w ''/d''" "\<not> path_exists ?w ''/d/f''"
    by (simp_all add: dump_eval)
  have h5: "sha1_hex example_lib ''y'' \<noteq> sha1_hex example_lib ''x''"
    by (simp add: example_lib_def)
  note t = dump_artifact_idempotent[OF dump_example_first h1 h2 h3]
  from t have a: "dump_artifact example_lib ?w1 ''x'' ''/d'' (Some ''f'') = Inr (''/d/f'', ?w1)" by blast
  from t h4 have b: "file_writes ?w1 = file_writes ?w @ [(''/d/f'', ''x'')]" by blast
  from t h5 dump_example_third have c: "read_raw ?w2 ''/d/f'' = Inr ''y''" by blast
  from dump_example_first h1 h2 h3 h4 h5 a b c show ?thesis by blast
qed

text \<open>
  C5 as stated fails for the target name \<^verbatim>\<open>.artifact_write_lock\<close>: the target is the lock
  file, which the \<^verbatim>\<open>finally\<close> block removes, so the second call writes again.
\<close>

theorem dump_artifact_second_write_counterexample:
  "\<not> (\<forall>lib w obj path filename fn w1 fn' w2.
        dump_artifact lib w obj path (Some filename) = Inr (fn, w1) \<and>
        dump_artifact lib w1 obj path (Some filename) = Inr (fn', w2)
        \<longrightarrow> file_writes w2 = file_writes w1)"
proof
  assume "\<forall>lib w obj path filename fn w1 fn' w2.
        dump_artifact lib w obj path (Some filename) = Inr (fn, w1) \<and>
        dump_artifact lib w1 obj path (Some filename) = Inr (fn', w2)
        \<longrightarrow> file_writes w2 = file_writes w1"
  from this[rule_format, OF conjI, OF dump_example_lock_first dump_example_lock_second]
  show False by simp
qed

text \<open>
  The same happens for every spelling of that target, such as \<^verbatim>\<open>./.artifact_write_lock\<close>.
  And content with a carriage return is written again by every call: \<^verbatim>\<open>open(fn)\<close> reads
  the stored CR back as LF, so the digests differ.
\<close>

lemma dump_artifact_lock_spelling_rewrites:
  "\<exists>w1 w2. dump_artifact example_lib (example_world [([''d''], Dir)]) ''x'' ''/d'' (Some ''./.artifact_write_lock'') =
       Inr (''/d/./.artifact_write_lock'', w1) \<and>
     dump_artifact example_lib w1 ''x'' ''/d'' (Some ''./.artifact_write_lock'') =
       Inr (''/d/./.artifact_write_lock'', w2) \<and>
     file_writes w2 = file_writes w1 @ [(''/d/./.artifact_write_lock'', ''x'')]"
  by (simp add: dump_eval)

lemma dump_artifact_carriage_return_rewrites:
  "\<exists>w1 w2. dump_artifact example_lib (example_world [([''d''], Dir)]) [CHR ''a'', CR] ''/d'' (Some ''f'') = Inr (''/d/f'', w1) \<and>
     dump_artifact example_lib w1 [CHR ''a'', CR] ''/d'' (Some ''f'') = Inr (''/d/f'', w2) \<and>
     file_writes w2 = file_writes w1 @ [(''/d/f'', [CHR ''a'', CR])]"
  using dump_example_cr_first dump_example_cr_second by simp

text \<open>A directory given with a trailing slash is made, and the file written below it.\<close>

lemma dump_artifact_trailing_slash:
  "dump_artifact example_lib (example_world [([''d''], Dir)]) ''x'' ''/d/new/'' (Some ''f'') =
     Inr (''/d/new/f'',
          (example_world [([''d''], Dir), ([''d'', ''new''], Dir), ([''d'', ''new'', ''f''], File ''x'')])
            \<lparr>file_writes := [(''/d/new/f'', ''x'')]\<rparr>)"
  by (simp add: dump_eval makedirs.simps[of _ "''/d/new/''"] mkdir_def path_split_def rstrip_slash_def)

section \<open>Artifact Store: \<^verbatim>\<open>dump_artifacts\<close>, proofs\<close>

subsection \<open>Joined paths\<close>

lemma pieces_not_Nil: "pieces s \<noteq> []"
  by (induction s) (auto split: list.splits)

lemma pieces_append_slash: "pieces (a @ CHR ''/'' # b) = pieces a @ pieces b"
proof (induction a)
  case Nil
  show ?case by simp
next
  case (Cons c a)
  obtain p ps where p: "pieces a = p # ps" using pieces_not_Nil[of a] by (cases "pieces a") auto
  with Cons show ?case by simp
qed

lemma pieces_plain: "CHR ''/'' \<notin> set x \<Longrightarrow> pieces x = [x]"
  by (induction x) auto

lemma components_append_slash:
  "components (a @ CHR ''/'' # b) = components a @ components b"
  by (simp add: components_def pieces_append_slash)

lemma components_plain: "x \<noteq> [] \<Longrightarrow> CHR ''/'' \<notin> set x \<Longrightarrow> components x = [x]"
  by (simp add: components_def pieces_plain)

lemma components_Nil [simp]: "components [] = []"
  by (simp add: components_def)

lemma components_join:
  assumes "d \<noteq> []" "x \<noteq> []" "CHR ''/'' \<notin> set x"
  shows "components (path_join d x) = components d @ [x]"
proof -
  from assms(2,3) have na: "\<not> isabs x" by (cases x) (auto simp: isabs_def)
  show ?thesis
  proof (cases "last d = CHR ''/''")
    case True
    with assms(1) obtain d' where d: "d = d' @ ''/''" by (metis append_butlast_last_id)
    have "components (d' @ CHR ''/'' # x) = components d' @ [x]"
      using components_plain[OF assms(2,3)] by (simp add: components_append_slash)
    moreover have "components d = components d'"
      unfolding d using components_append_slash[of d' "[]"] by simp
    ultimately show ?thesis using na True assms(1) unfolding d by (simp add: path_join_def)
  next
    case False
    have "components (d @ CHR ''/'' # x) = components d @ [x]"
      using components_plain[OF assms(2,3)] by (simp add: components_append_slash)
    with na False assms(1) show ?thesis by (simp add: path_join_def)
  qed
qed

lemma isabs_join:
  assumes "d \<noteq> []" "x \<noteq> []" "CHR ''/'' \<notin> set x"
  shows "isabs (path_join d x) = isabs d"
proof -
  from assms(2,3) have na: "\<not> isabs x" by (cases x) (auto simp: isabs_def)
  with assms(1) show ?thesis by (cases d) (auto simp: path_join_def isabs_def)
qed

lemma path_join_not_Nil: "d \<noteq> [] \<Longrightarrow> path_join d x \<noteq> []"
  by (auto simp: path_join_def isabs_def split: list.splits)

lemma set_path_join:
  assumes "d \<noteq> []" "x \<noteq> []" "CHR ''/'' \<notin> set x"
  shows "set (path_join d x) = set d \<union> set x \<union> {CHR ''/''}"
proof -
  from assms(2,3) have na: "\<not> isabs x" by (cases x) (auto simp: isabs_def)
  show ?thesis
  proof (cases "last d = CHR ''/''")
    case True
    then have "CHR ''/'' \<in> set d" using assms(1) by (metis last_in_set)
    with na True show ?thesis by (auto simp: path_join_def)
  next
    case False
    with na assms(1) show ?thesis by (auto simp: path_join_def)
  qed
qed

lemma slashed_join:
  assumes "d \<noteq> []" "x \<noteq> []" "CHR ''/'' \<notin> set x"
  shows "\<not> slashed (path_join d x)"
proof -
  from assms(2,3) have na: "\<not> isabs x" by (cases x) (auto simp: isabs_def)
  have "last (path_join d x) = last x" using na assms(1,2) by (simp add: path_join_def)
  moreover have "last x \<in> set x" using assms(2) by simp
  ultimately show ?thesis using assms(3) by (auto simp: slashed_def)
qed

lemma key_of_join:
  assumes "d \<noteq> []" "x \<noteq> []" "CHR ''/'' \<notin> set x" "x \<noteq> ''.''" "x \<noteq> ''..''"
  shows "key_of w (path_join d x) = key_of w d @ [x]"
  unfolding key_of_def components_join[OF assms(1,2,3)] isabs_join[OF assms(1,2,3)]
  using assms(4,5) by (simp add: step_def)

subsection \<open>Resolution of a joined path\<close>

lemma walk_append:
  "walk w cur (cs @ ds) = (case walk w cur cs of Inl e \<Rightarrow> Inl e | Inr k \<Rightarrow> walk w k ds)"
proof (induction cs arbitrary: cur)
  case Nil
  show ?case by simp
next
  case (Cons c cs)
  show ?case
  proof (cases "node_at w cur")
    case None
    then show ?thesis by simp
  next
    case (Some n)
    with Cons show ?thesis by (cases n) simp_all
  qed
qed

lemma walk_names: "walk w cur cs = Inr k \<Longrightarrow> \<forall>c\<in>set cs. length c \<le> name_max w"
proof (induction cs arbitrary: cur)
  case Nil
  show ?case by simp
next
  case (Cons c cs)
  from Cons.prems have n: "\<not> name_max w < length c" and r: "walk w (step cur c) cs = Inr k"
    by (auto split: option.splits node.splits if_splits)
  from Cons.IH[OF r] n show ?case by simp
qed

lemma resolve_guards:
  "resolve w p = Inr k \<Longrightarrow>
     CHR 0x00 \<notin> set p \<and> p \<noteq> [] \<and> length p < path_max w \<and>
     (\<forall>c\<in>set (components p). length c \<le> name_max w)"
  by (auto simp: resolve_def split: if_splits dest: walk_names)

lemma resolve_join:
  assumes d: "resolve w d = Inr kd"
      and x: "x \<noteq> []" "CHR ''/'' \<notin> set x" "x \<noteq> ''.''" "x \<noteq> ''..''"
  shows "resolve w (path_join d x) =
           (if CHR 0x00 \<in> set x then Inl ValueError
            else if path_max w \<le> length (path_join d x) then Inl OSError
            else (case node_at w kd of
                    None \<Rightarrow> Inl FileNotFoundError
                  | Some Dir \<Rightarrow> if name_max w < length x then Inl OSError else Inr (kd @ [x])
                  | Some _ \<Rightarrow> Inl NotADirectoryError))"
proof -
  from resolve_guards[OF d] have g: "CHR 0x00 \<notin> set d" "d \<noteq> []" by simp_all
  have w: "walk w (if isabs d then [] else cwd w) (components d) = Inr kd"
    using d g by (simp add: resolve_def split: if_splits)
  have nul: "CHR 0x00 \<in> set (path_join d x) \<longleftrightarrow> CHR 0x00 \<in> set x"
    using g(1) by (simp add: set_path_join[OF g(2) x(1,2)])
  have "walk w (if isabs d then [] else cwd w) (components d @ [x]) =
          (case node_at w kd of
                    None \<Rightarrow> Inl FileNotFoundError
                  | Some Dir \<Rightarrow> if name_max w < length x then Inl OSError else Inr (kd @ [x])
                  | Some _ \<Rightarrow> Inl NotADirectoryError)"
    unfolding walk_append w using x(3,4)
    by (simp add: step_def split: option.splits node.splits)
  then show ?thesis
    unfolding resolve_def components_join[OF g(2) x(1,2)] isabs_join[OF g(2) x(1,2)] nul
    using path_join_not_Nil[OF g(2)] by simp
qed

subsection \<open>\<^verbatim>\<open>os.makedirs\<close> below a directory that exists\<close>

lemma rstrip_slash_decomp: "\<exists>m. d = rstrip_slash d @ replicate m (CHR ''/'')"
proof -
  have "rev d = takeWhile (\<lambda>c. c = CHR ''/'') (rev d) @ dropWhile (\<lambda>c. c = CHR ''/'') (rev d)"
    by simp
  then have "d = rev (dropWhile (\<lambda>c. c = CHR ''/'') (rev d)) @ rev (takeWhile (\<lambda>c. c = CHR ''/'') (rev d))"
    by (metis rev_append rev_rev_ident)
  moreover have "rev (takeWhile (\<lambda>c. c = CHR ''/'') (rev d)) =
      replicate (length (takeWhile (\<lambda>c. c = CHR ''/'') (rev d))) (CHR ''/'')"
  proof -
    have "\<forall>c\<in>set (takeWhile (\<lambda>c. c = CHR ''/'') (rev d)). c = CHR ''/''"
      by (auto dest: set_takeWhileD)
    then have "takeWhile (\<lambda>c. c = CHR ''/'') (rev d) =
      replicate (length (takeWhile (\<lambda>c. c = CHR ''/'') (rev d))) (CHR ''/'')"
      by (metis replicate_length_same)
    then show ?thesis by (metis rev_replicate)
  qed
  ultimately show ?thesis unfolding rstrip_slash_def by metis
qed

lemma components_slashes: "components (a @ replicate m (CHR ''/'')) = components a"
proof (induction m)
  case 0
  show ?case by simp
next
  case (Suc m)
  have "a @ replicate (Suc m) (CHR ''/'') = (a @ replicate m (CHR ''/'')) @ CHR ''/'' # []"
    by (simp add: replicate_append_same)
  then have "components (a @ replicate (Suc m) (CHR ''/'')) = components (a @ replicate m (CHR ''/''))"
    using components_append_slash[of "a @ replicate m (CHR ''/'')" "[]"] by simp
  with Suc show ?case by simp
qed

lemma path_exists_rstrip:
  assumes "path_exists w d" "rstrip_slash d \<noteq> []"
  shows "path_exists w (rstrip_slash d)"
proof -
  obtain m where m: "d = rstrip_slash d @ replicate m (CHR ''/'')"
    using rstrip_slash_decomp by blast
  let ?r = "rstrip_slash d"
  from assms(1) obtain k n where st: "stat_path w d = Inr (k, n)" unfolding path_exists_iff by blast
  then have r: "resolve w d = Inr k" and nd: "node_at w k = Some n"
    by (auto simp: stat_path_def split: sum.splits option.splits node.splits if_splits)
  from resolve_guards[OF r] have g: "CHR 0x00 \<notin> set d" "length d < path_max w" by simp_all
  have c: "components ?r = components d" using components_slashes[of ?r m] m by simp
  have a: "isabs ?r = isabs d" using assms(2) m by (cases ?r) (auto simp: isabs_def)
  have s: "set ?r \<subseteq> set d" and l: "length ?r \<le> length d"
    using m by (metis set_append Un_upper1, metis length_append le_add1)
  have "resolve w ?r = Inr k"
    using r g s l assms(2) unfolding resolve_def c a by (auto split: if_splits)
  moreover have "\<not> slashed ?r \<or> n = Dir"
  proof (cases m)
    case 0
    with m have "?r = d" by simp
    with st nd r show ?thesis by (auto simp: stat_path_def split: node.splits if_splits)
  next
    case (Suc m')
    with m have "d = (rstrip_slash d @ replicate m' (CHR ''/'')) @ ''/''"
      by (simp add: replicate_append_same)
    then obtain t where "d = t @ ''/''" by blast
    then have "slashed d" by (simp add: slashed_def)
    with st nd r show ?thesis by (auto simp: stat_path_def split: node.splits if_splits)
  qed
  ultimately have "\<exists>kn. stat_path w ?r = Inr kn"
    using nd by (auto simp: stat_path_def split: node.splits)
  then show ?thesis by (auto simp: path_exists_def)
qed

lemma takeWhile_until: "\<forall>c\<in>set a. P c \<Longrightarrow> \<not> P b \<Longrightarrow> takeWhile P (a @ b # r) = a"
  by (induction a) auto

lemma path_split_join:
  assumes "d \<noteq> []" "x \<noteq> []" "CHR ''/'' \<notin> set x"
  shows "snd (path_split (path_join d x)) = x"
    and "fst (path_split (path_join d x)) = (if rstrip_slash d = [] then d else rstrip_slash d)"
proof -
  from assms(2,3) have na: "\<not> isabs x" by (cases x) (auto simp: isabs_def)
  define h where "h = (if last d = CHR ''/'' then d else d @ ''/'')"
  have p: "path_join d x = h @ x" using na assms(1) by (simp add: path_join_def h_def)
  have hl: "h \<noteq> []" "last h = CHR ''/''" using assms(1) by (auto simp: h_def)
  then obtain h' where h': "h = h' @ ''/''" by (metis append_butlast_last_id)
  have tw: "takeWhile (\<lambda>c. c \<noteq> CHR ''/'') (rev (h @ x)) = rev x"
  proof -
    have "\<forall>c\<in>set (rev x). c \<noteq> CHR ''/''" using assms(3) by auto
    then show ?thesis unfolding h' by (simp add: takeWhile_until)
  qed
  have rs: "rstrip_slash h = rstrip_slash d"
    by (simp add: h_def rstrip_slash_def)
  have all: "h = d" if "rstrip_slash d = []"
  proof -
    obtain m where "d = rstrip_slash d @ replicate m (CHR ''/'')" using rstrip_slash_decomp by blast
    with that have "d = replicate m (CHR ''/'')" by simp
    with assms(1) have "last d = CHR ''/''" by (metis last_replicate replicate_empty)
    then show ?thesis by (simp add: h_def)
  qed
  show "snd (path_split (path_join d x)) = x"
    unfolding p path_split_def Let_def tw by simp
  show "fst (path_split (path_join d x)) = (if rstrip_slash d = [] then d else rstrip_slash d)"
    unfolding p path_split_def Let_def tw using hl(1) rs all by simp
qed

lemma makedirs_under:
  assumes "path_exists w d" "d \<noteq> []" "x \<noteq> []" "CHR ''/'' \<notin> set x"
  shows "makedirs w (path_join d x) = mkdir w (path_join d x)"
proof -
  note ps = path_split_join[OF assms(2,3,4)]
  have ex: "path_exists w (fst (path_split (path_join d x)))"
    unfolding ps(2) using assms(1) path_exists_rstrip[OF assms(1)] by simp
  show ?thesis
    by (subst makedirs.simps) (simp add: Let_def ps(1) assms(3) ex)
qed

end
